theory Spec2Isabelle
  imports Main "HOL-Library.Word"
begin

unbundle bit_operations_syntax

section \<open>The Service Description Table codec of tsSDT.cpp\<close>

text \<open>
  The theory embeds \<^verbatim>\<open>ts::SDT::deserialize\<close>, \<^verbatim>\<open>ts::SDT::addSection\<close> and
  \<^verbatim>\<open>ts::SDT::serialize\<close>. Bytes are 8-bit words, identifiers 16-bit words. The
  pair of a read pointer and a remaining-byte counter (\<^verbatim>\<open>data\<close>, \<^verbatim>\<open>remain\<close>) of the
  decoder is the list of the bytes not yet consumed; the working buffer of the encoder is the
  list of the bytes between \<^verbatim>\<open>payload\<close> and \<^verbatim>\<open>data\<close>.
\<close>

type_synonym u8 = "8 word"
type_synonym u16 = "16 word"

subsection \<open>Collaborators that are not part of the sources\<close>

text \<open>
  Modelled from the spec: the big-endian accessors \<^verbatim>\<open>GetUInt16\<close> and \<^verbatim>\<open>PutUInt16\<close> of the
  byte buffer (section 4.1, "numeric fields are big-endian throughout"). \<open>GetUInt16 a b\<close>
  is the value read at an address holding the bytes \<open>a\<close>, \<open>b\<close>.
\<close>

definition GetUInt16 :: "u8 \<Rightarrow> u8 \<Rightarrow> u16" where
  "GetUInt16 a b = push_bit 8 (ucast a) OR ucast b"

definition PutUInt16 :: "u16 \<Rightarrow> u8 list" where
  "PutUInt16 x = [ucast (drop_bit 8 x), ucast x]"

text \<open>
  Modelled from the spec: the \<^verbatim>\<open>Descriptor\<close> type, "an opaque tagged binary blob (tag byte,
  length, payload bytes)"; its serialized size is the 2-byte header plus the payload length
  (section 3). The length byte on the wire is the payload size.
\<close>

datatype Descriptor = Descriptor (tag: u8) (payload: "u8 list")

definition desc_size :: "Descriptor \<Rightarrow> nat" where
  "desc_size d = 2 + length (payload d)"

definition desc_content :: "Descriptor \<Rightarrow> u8 list" where
  "desc_content d = tag d # word_of_nat (length (payload d)) # payload d"

type_synonym DescriptorList = "Descriptor list"

text \<open>
  Modelled from the spec: \<^verbatim>\<open>DescriptorList::binarySize\<close> (\<^verbatim>\<open>serializedSize\<close> of
  section 4.2), the exact encoded byte count of all descriptors.
\<close>

definition binarySize :: "DescriptorList \<Rightarrow> nat" where
  "binarySize ds = sum_list (map desc_size ds)"

text \<open>
  Modelled from the spec: the partial serializer of section 4.2. \<open>serialize_fit ds budget\<close>
  writes the descriptors of \<open>ds\<close> in order, stopping before the first one that exceeds
  what is left of \<open>budget\<close> (a descriptor is never split); it returns the bytes
  written and the number of descriptors written.
\<close>

fun serialize_fit :: "DescriptorList \<Rightarrow> nat \<Rightarrow> u8 list \<times> nat" where
  "serialize_fit [] budget = ([], 0)"
| "serialize_fit (d # ds) budget =
     (if desc_size d \<le> budget
      then (let (bs, n) = serialize_fit ds (budget - desc_size d)
            in (desc_content d @ bs, Suc n))
      else ([], 0))"

text \<open>
  Modelled from the spec: \<^verbatim>\<open>DescriptorList::lengthSerialize\<close>, which the encoder calls
  with the write pointer, the remaining budget (both updated) and a start index. It is not
  among the sources; following section 4.3 (c)-(e) it writes a two-byte length field whose
  low 12 bits hold the number of descriptor bytes written in this call, then the descriptors
  from \<open>start\<close> on that fit, and returns the index of the first descriptor not written.
  The upper four bits of the length field are written as ones; the caller overwrites them.
  The caller guarantees a budget of at least two bytes. The result is the bytes appended,
  the new budget and the next index.
\<close>

definition lengthSerialize :: "DescriptorList \<Rightarrow> nat \<Rightarrow> nat \<Rightarrow> u8 list \<times> nat \<times> nat" where
  "lengthSerialize ds budget start =
     (let (bs, n) = serialize_fit (drop start ds) (budget - 2)
      in (PutUInt16 (word_of_nat (length bs) OR 0xF000) @ bs,
          budget - 2 - length bs,
          start + n))"

text \<open>
  Modelled from the spec: \<^verbatim>\<open>DescriptorList::add (data, size)\<close> (\<^verbatim>\<open>deserializeAppend\<close> of
  section 4.2): parses tag/length/payload triples and appends them to the list; a descriptor
  whose declared length exceeds the remaining bytes is included, clamped to what is
  available. A single trailing byte is not a descriptor and is dropped.
\<close>

function parse_descs :: "u8 list \<Rightarrow> DescriptorList" where
  "parse_descs (t # l # rest) =
     Descriptor t (take (unat l) rest) # parse_descs (drop (unat l) rest)"
| "parse_descs [t] = []"
| "parse_descs [] = []"
  by pat_completeness auto
termination
  by (relation "measure length") auto

definition descs_add :: "DescriptorList \<Rightarrow> u8 list \<Rightarrow> DescriptorList" where
  "descs_add ds bytes = ds @ parse_descs bytes"

text \<open>
  Modelled from the spec: a \<^verbatim>\<open>Section\<close> (section 3): table-type tag, private-section
  marker, extension identifier, version, current flag, section number, last section number
  and payload. \<open>sect_isValid\<close> is what the section reports about its own well-formedness;
  a section built by the encoder is well-formed.
\<close>

record Section =
  sect_isValid :: bool
  sect_tableId :: u8
  sect_isPrivateSection :: bool
  sect_tableIdExtension :: u16
  sect_version :: u8
  sect_isCurrent :: bool
  sect_sectionNumber :: u8
  sect_lastSectionNumber :: u8
  sect_payload :: "u8 list"

definition new_Section ::
  "u8 \<Rightarrow> bool \<Rightarrow> u16 \<Rightarrow> u8 \<Rightarrow> bool \<Rightarrow> u8 \<Rightarrow> u8 \<Rightarrow> u8 list \<Rightarrow> Section" where
  "new_Section tid is_private tid_ext vers cur secnum lastnum bytes =
     \<lparr>sect_isValid = True, sect_tableId = tid, sect_isPrivateSection = is_private,
      sect_tableIdExtension = tid_ext, sect_version = vers, sect_isCurrent = cur,
      sect_sectionNumber = secnum, sect_lastSectionNumber = lastnum, sect_payload = bytes\<rparr>"

text \<open>
  Modelled from the spec: a \<^verbatim>\<open>BinaryTable\<close>, the ordered sequence of sections of one
  table. \<^verbatim>\<open>addSection\<close> appends; the table is valid when the sequence is non-empty and
  every section reports itself well-formed (section 4.4, rule 1); its table id is the tag of
  the first section (rule 2).
\<close>

record BinaryTable =
  bt_sections :: "Section list"

definition bt_clear :: "BinaryTable \<Rightarrow> BinaryTable" where
  "bt_clear table = table\<lparr>bt_sections := []\<rparr>"

definition bt_addSection :: "BinaryTable \<Rightarrow> Section \<Rightarrow> BinaryTable" where
  "bt_addSection table sect = table\<lparr>bt_sections := bt_sections table @ [sect]\<rparr>"

definition bt_sectionCount :: "BinaryTable \<Rightarrow> nat" where
  "bt_sectionCount table = length (bt_sections table)"

definition bt_isValid :: "BinaryTable \<Rightarrow> bool" where
  "bt_isValid table = (bt_sections table \<noteq> [] \<and> list_all sect_isValid (bt_sections table))"

definition bt_tableId :: "BinaryTable \<Rightarrow> u8" where
  "bt_tableId table = (case bt_sections table of [] \<Rightarrow> 0xFF | s # _ \<Rightarrow> sect_tableId s)"

text \<open>
  Modelled from the spec: the two table-type tags of the Service Description Table ("this
  transport stream" and "other transport stream"); their declarations are not among the
  sources. The values are those of the DVB standard.
\<close>

definition TID_SDT_ACT :: u8 where
  "TID_SDT_ACT = 0x42"

definition TID_SDT_OTH :: u8 where
  "TID_SDT_OTH = 0x46"

subsection \<open>The table and its services\<close>

record Service =
  EITs_present :: bool
  EITpf_present :: bool
  running_status :: u8
  CA_controlled :: bool
  descs :: DescriptorList

text \<open>The default constructor of \<^verbatim>\<open>SDT::Service\<close>.\<close>

definition Service_default :: Service where
  "Service_default =
     \<lparr>EITs_present = False, EITpf_present = False, running_status = 0,
      CA_controlled = False, descs = []\<rparr>"

text \<open>
  \<^verbatim>\<open>ServiceMap\<close> is a \<^verbatim>\<open>std::map\<close> from service id to service: keys are unique
  and iteration is in ascending key order. It is represented by the list of its pairs in
  iteration order; \<open>map_find\<close> and \<open>map_store\<close> are lookup and insert-or-replace.
\<close>

type_synonym ServiceMap = "(u16 \<times> Service) list"

fun map_find :: "u16 \<Rightarrow> ServiceMap \<Rightarrow> Service option" where
  "map_find k [] = None"
| "map_find k ((k', v) # m) = (if k = k' then Some v else map_find k m)"

fun map_store :: "u16 \<Rightarrow> Service \<Rightarrow> ServiceMap \<Rightarrow> ServiceMap" where
  "map_store k v [] = [(k, v)]"
| "map_store k v ((k', v') # m) =
     (if k < k' then (k, v) # (k', v') # m
      else if k = k' then (k, v) # m
      else (k', v') # map_store k v m)"

text \<open>
  \<^verbatim>\<open>services[service_id]\<close>: the service stored under the key, a default-constructed one
  if the key is new.
\<close>

definition map_index :: "ServiceMap \<Rightarrow> u16 \<Rightarrow> Service" where
  "map_index m k = (case map_find k m of None \<Rightarrow> Service_default | Some v \<Rightarrow> v)"

record SDT =
  is_valid :: bool
  table_id :: u8
  version :: u8
  is_current :: bool
  ts_id :: u16
  onetw_id :: u16
  services :: ServiceMap

subsection \<open>Deserialization\<close>

text \<open>
  The \<^verbatim>\<open>while (remain >= 5)\<close> loop of \<^verbatim>\<open>deserialize\<close> over one section payload. The
  five header bytes are \<^verbatim>\<open>data[0..4]\<close>; \<open>rest\<close> is what follows them, so
  \<open>length rest\<close> is \<^verbatim>\<open>remain\<close> after the header has been consumed.
\<close>

function services_loop :: "ServiceMap \<Rightarrow> u8 list \<Rightarrow> ServiceMap" where
  "services_loop m (d0 # d1 # d2 # d3 # d4 # rest) =
     (let service_id = GetUInt16 d0 d1;
          serv = map_index m service_id;
          serv = serv\<lparr>EITs_present := (d2 AND 0x02) \<noteq> 0\<rparr>;
          serv = serv\<lparr>EITpf_present := (d2 AND 0x01) \<noteq> 0\<rparr>;
          serv = serv\<lparr>running_status := drop_bit 5 d3\<rparr>;
          serv = serv\<lparr>CA_controlled := (d3 AND 0x10) \<noteq> 0\<rparr>;
          info_length = unat (GetUInt16 d3 d4 AND 0x0FFF);
          info_length = min info_length (length rest);
          serv = serv\<lparr>descs := descs_add (descs serv) (take info_length rest)\<rparr>
      in services_loop (map_store service_id serv m) (drop info_length rest))"
| "services_loop m [d0, d1, d2, d3] = m"
| "services_loop m [d0, d1, d2] = m"
| "services_loop m [d0, d1] = m"
| "services_loop m [d0] = m"
| "services_loop m [] = m"
  by pat_completeness auto
termination
  by (relation "measure (\<lambda>(m, data). length data)") auto

text \<open>
  The same loop as it works on the payload in memory. \<open>pbytes\<close> is the payload of the
  section, \<open>data\<close> the offset of the pointer \<^verbatim>\<open>data\<close> from the start of the payload
  and \<open>remain\<close> the counter \<^verbatim>\<open>remain\<close>; \<^verbatim>\<open>deserialize\<close> enters the loop with the
  offset 3 and the payload size less 3. Every read has its bound checked here: the five
  header bytes \<^verbatim>\<open>data[0..4]\<close> and the \<^verbatim>\<open>info_length\<close> bytes handed to
  \<^verbatim>\<open>descs.add\<close> have to lie inside the payload, and a read that does not is the result
  \<open>None\<close>.
\<close>

function services_at :: "u8 list \<Rightarrow> nat \<Rightarrow> nat \<Rightarrow> ServiceMap \<Rightarrow> ServiceMap option" where
  "services_at pbytes data remain m =
     (if remain \<ge> 5 then
        if length pbytes < data + 5 then None
        else
          let service_id = GetUInt16 (pbytes ! data) (pbytes ! (data + 1));
              serv = map_index m service_id;
              serv = serv\<lparr>EITs_present := (pbytes ! (data + 2) AND 0x02) \<noteq> 0\<rparr>;
              serv = serv\<lparr>EITpf_present := (pbytes ! (data + 2) AND 0x01) \<noteq> 0\<rparr>;
              serv = serv\<lparr>running_status := drop_bit 5 (pbytes ! (data + 3))\<rparr>;
              serv = serv\<lparr>CA_controlled := (pbytes ! (data + 3) AND 0x10) \<noteq> 0\<rparr>;
              info_length =
                unat (GetUInt16 (pbytes ! (data + 3)) (pbytes ! (data + 4)) AND 0x0FFF);
              data = data + 5;
              remain = remain - 5;
              info_length = min info_length remain
          in if length pbytes < data + info_length then None
             else
               let serv = serv\<lparr>descs :=
                            descs_add (descs serv) (take info_length (drop data pbytes))\<rparr>
               in services_at pbytes (data + info_length) (remain - info_length)
                    (map_store service_id serv m)
      else Some m)"
  by pat_completeness auto
termination
  by (relation "measure (\<lambda>(pbytes, data, remain, m). remain)") auto

declare services_at.simps [simp del]

text \<open>
  The \<^verbatim>\<open>for\<close> loop over the sections, from the section at hand to the end of the table.
  Each \<^verbatim>\<open>return\<close> inside the loop leaves the table as it is at that point; falling out
  of the loop reaches \<^verbatim>\<open>_is_valid = true\<close>.
\<close>

fun sections_loop :: "SDT \<Rightarrow> Section list \<Rightarrow> SDT" where
  "sections_loop t [] = t\<lparr>is_valid := True\<rparr>"
| "sections_loop t (sect # sects) =
     (if sect_tableId sect \<noteq> table_id t then t
      else
        let t = t\<lparr>version := sect_version sect\<rparr>;
            t = t\<lparr>is_current := sect_isCurrent sect\<rparr>;
            t = t\<lparr>ts_id := sect_tableIdExtension sect\<rparr>
        in case sect_payload sect of
             p0 # p1 # p2 # data \<Rightarrow>
               let t = t\<lparr>onetw_id := GetUInt16 p0 p1\<rparr>;
                   t = t\<lparr>services := services_loop (services t) data\<rparr>
               in sections_loop t sects
           | _ \<Rightarrow> t)"

text \<open>
  \<^verbatim>\<open>deserialize\<close> updates the table object in place: \<open>t\<close> is the object before the
  call, the result is the object after it.
\<close>

definition deserialize :: "SDT \<Rightarrow> BinaryTable \<Rightarrow> SDT" where
  "deserialize t table =
     (let t = t\<lparr>is_valid := False, ts_id := 0, onetw_id := 0, services := []\<rparr>
      in if \<not> bt_isValid table then t
         else
           let t = t\<lparr>table_id := bt_tableId table\<rparr>
           in if table_id t \<noteq> TID_SDT_ACT \<and> table_id t \<noteq> TID_SDT_OTH then t
              else sections_loop t (bt_sections table))"

subsection \<open>Serialization\<close>

text \<open>
  The variables of one \<^verbatim>\<open>serialize\<close> call: the output table, the section number (an
  \<^verbatim>\<open>int\<close> that only counts up from 0), the buffer content from \<^verbatim>\<open>payload\<close> up to
  \<^verbatim>\<open>data\<close>, and \<^verbatim>\<open>remain\<close>.
\<close>

record ser_state =
  st_table :: BinaryTable
  st_section_number :: nat
  st_buf :: "u8 list"
  st_remain :: nat

definition addSection :: "SDT \<Rightarrow> ser_state \<Rightarrow> ser_state" where
  "addSection t st =
     \<lparr>st_table = bt_addSection (st_table st)
        (new_Section (table_id t) True (ts_id t) (version t) (is_current t)
           (word_of_nat (st_section_number st)) (word_of_nat (st_section_number st))
           (st_buf st)),
      st_section_number = st_section_number st + 1,
      st_buf = take 3 (st_buf st),
      st_remain = st_remain st + (length (st_buf st) - 3)\<rparr>"

text \<open>
  One pass of the body of the \<^verbatim>\<open>while\<close> loop after the check that opens a new section
  (lines 268 to 281): the service id and the flags byte, the length field and the descriptors
  that fit, then the patch of the four upper bits of the length field. The result is the
  state and the new \<^verbatim>\<open>start_index\<close>.
\<close>

definition put_service :: "u16 \<Rightarrow> Service \<Rightarrow> nat \<Rightarrow> ser_state \<Rightarrow> ser_state \<times> nat" where
  "put_service service_id serv start_index st =
     (let hdr = PutUInt16 service_id @
                [0xFC OR (if EITs_present serv then 0x02 else 0x00)
                      OR (if EITpf_present serv then 0x01 else 0x00)];
          buf = st_buf st @ hdr;
          remain = st_remain st - 3;
          flags = length buf;
          (bytes, remain, next_index) = lengthSerialize (descs serv) remain start_index;
          buf = buf @ bytes;
          buf = buf[flags := (buf ! flags AND 0x0F) OR push_bit 5 (running_status serv)
                               OR (if CA_controlled serv then 0x10 else 0x00)]
      in (st\<lparr>st_buf := buf, st_remain := remain\<rparr>, next_index))"

text \<open>
  The \<^verbatim>\<open>while (starting || start_index < serv.descs.count())\<close> loop for one service.
  \<open>None\<close> stands for a call that does not return: the loop runs forever, or
  \<^verbatim>\<open>assert (remain >= 5)\<close> aborts.
\<close>

partial_function (option) service_loop ::
  "SDT \<Rightarrow> u16 \<Rightarrow> Service \<Rightarrow> bool \<Rightarrow> nat \<Rightarrow> ser_state \<Rightarrow> ser_state option" where
  "service_loop t service_id serv starting start_index st =
     (if starting \<or> start_index < length (descs serv) then
        (let st = (if starting \<and> 5 + binarySize (descs serv) > st_remain st
                   then addSection t st else st)
         in if st_remain st < 5 then None
            else
              let (st, start_index) = put_service service_id serv start_index st;
                  st = (if start_index < length (descs serv) then addSection t st else st)
              in service_loop t service_id serv False start_index st)
      else Some st)"

declare service_loop.simps [code]

text \<open>The \<^verbatim>\<open>for\<close> loop over the services, in iteration order of the map.\<close>

fun services_for :: "SDT \<Rightarrow> ServiceMap \<Rightarrow> ser_state \<Rightarrow> ser_state option" where
  "services_for t [] st = Some st"
| "services_for t ((service_id, serv) # m) st =
     (let st = (if st_remain st < 5 then addSection t st else st)
      in case service_loop t service_id serv True 0 st of
           None \<Rightarrow> None
         | Some st \<Rightarrow> services_for t m st)"

text \<open>
  \<^verbatim>\<open>serialize\<close> writes into the binary table passed by reference: \<open>table\<close> is the
  object before the call, the result the object after it. \<open>max_payload\<close> is the constant
  \<^verbatim>\<open>MAX_PSI_LONG_SECTION_PAYLOAD_SIZE\<close>, the size of the working buffer; its declaration
  is not among the sources, so it is a parameter here (1012 in MPEG: a section of 1024 bytes
  less its header of 8 and its checksum of 4). It is meant to be at least 3, so that the
  subtraction does not wrap around.
\<close>

definition serialize :: "nat \<Rightarrow> SDT \<Rightarrow> BinaryTable \<Rightarrow> BinaryTable option" where
  "serialize max_payload t table =
     (let table = bt_clear table
      in if \<not> is_valid t then Some table
         else
           let st = \<lparr>st_table = table, st_section_number = 0,
                     st_buf = PutUInt16 (onetw_id t) @ [0xFF],
                     st_remain = max_payload - 3\<rparr>
           in case services_for t (services t) st of
                None \<Rightarrow> None
              | Some st \<Rightarrow>
                  Some (st_table
                    (if length (st_buf st) > 3 \<or> bt_sectionCount (st_table st) = 0
                     then addSection t st else st)))"

subsection \<open>Notions used in the statements\<close>

text \<open>
  The rules a section has to pass inside the loop of \<^verbatim>\<open>deserialize\<close>: it carries the
  table id of the table and its payload has the three leading bytes.
\<close>

definition section_ok :: "u8 \<Rightarrow> Section \<Rightarrow> bool" where
  "section_ok tid s = (sect_tableId s = tid \<and> 3 \<le> length (sect_payload s))"

text \<open>All validation rules of \<^verbatim>\<open>deserialize\<close> together.\<close>

definition decodable :: "BinaryTable \<Rightarrow> bool" where
  "decodable table =
     (bt_isValid table \<and>
      (bt_tableId table = TID_SDT_ACT \<or> bt_tableId table = TID_SDT_OTH) \<and>
      list_all (section_ok (bt_tableId table)) (bt_sections table))"

text \<open>The effect of one section that passes the rules on the table being built.\<close>

definition section_step :: "SDT \<Rightarrow> Section \<Rightarrow> SDT" where
  "section_step t s =
     t\<lparr>version := sect_version s, is_current := sect_isCurrent s,
       ts_id := sect_tableIdExtension s,
       onetw_id := GetUInt16 (sect_payload s ! 0) (sect_payload s ! 1),
       services := services_loop (services t) (drop 3 (sect_payload s))\<rparr>"

text \<open>
  The bytes of a service header as \<^verbatim>\<open>serialize\<close> writes them: the flags byte, the
  length field as \<^verbatim>\<open>lengthSerialize\<close> leaves it, and the patch of its first byte.
\<close>

definition flags_byte :: "bool \<Rightarrow> bool \<Rightarrow> u8" where
  "flags_byte e p = 0xFC OR (if e then 0x02 else 0x00) OR (if p then 0x01 else 0x00)"

definition patch :: "u8 \<Rightarrow> u8 \<Rightarrow> bool \<Rightarrow> u8" where
  "patch b rs ca = (b AND 0x0F) OR push_bit 5 rs OR (if ca then 0x10 else 0x00)"

definition length_field :: "nat \<Rightarrow> u16" where
  "length_field n = word_of_nat n OR 0xF000"

definition entry_bytes :: "u16 \<Rightarrow> Service \<Rightarrow> u8 list \<Rightarrow> u8 list" where
  "entry_bytes service_id serv bs =
     PutUInt16 service_id @
     [flags_byte (EITs_present serv) (EITpf_present serv),
      patch (ucast (drop_bit 8 (length_field (length bs))))
            (running_status serv) (CA_controlled serv),
      ucast (length_field (length bs))] @ bs"

text \<open>
  The two halves of one pass of the \<^verbatim>\<open>while\<close> loop of \<^verbatim>\<open>serialize\<close>: the check
  that opens a new section before a service that does not fit, and the whole pass, which
  yields the state and the start index of the next pass.
\<close>

definition open_section :: "SDT \<Rightarrow> Service \<Rightarrow> bool \<Rightarrow> ser_state \<Rightarrow> ser_state" where
  "open_section t serv starting st =
     (if starting \<and> 5 + binarySize (descs serv) > st_remain st then addSection t st else st)"

definition loop_pass ::
  "SDT \<Rightarrow> u16 \<Rightarrow> Service \<Rightarrow> bool \<Rightarrow> nat \<Rightarrow> ser_state \<Rightarrow> ser_state \<times> nat" where
  "loop_pass t service_id serv starting start_index st =
     (let (st, start_index) =
            put_service service_id serv start_index (open_section t serv starting st)
      in (if start_index < length (descs serv) then addSection t st else st, start_index))"

text \<open>
  What holds of the variables of \<^verbatim>\<open>serialize\<close> throughout: buffer and \<^verbatim>\<open>remain\<close>
  add up to the maximum payload size, the buffer starts with the three constant bytes, the
  section number counts the sections emitted, and the section emitted as number \<open>i\<close>
  carries the fields of the table, \<open>i\<close> cut to eight bits as section number and as last
  section number, and a payload within the maximum size that starts with the constant bytes.
\<close>

definition header_bytes :: "SDT \<Rightarrow> u8 list" where
  "header_bytes t = PutUInt16 (onetw_id t) @ [0xFF]"

definition emitted :: "SDT \<Rightarrow> nat \<Rightarrow> u8 list \<Rightarrow> Section" where
  "emitted t i p =
     new_Section (table_id t) True (ts_id t) (version t) (is_current t)
       (word_of_nat i) (word_of_nat i) p"

definition sections_inv :: "nat \<Rightarrow> SDT \<Rightarrow> Section list \<Rightarrow> bool" where
  "sections_inv max_payload t sects =
     (\<forall>i < length sects. \<exists>p. sects ! i = emitted t i p \<and> length p \<le> max_payload \<and>
         take 3 p = header_bytes t)"

definition enc_inv :: "nat \<Rightarrow> SDT \<Rightarrow> ser_state \<Rightarrow> bool" where
  "enc_inv max_payload t st =
     (length (st_buf st) + st_remain st = max_payload \<and>
      take 3 (st_buf st) = header_bytes t \<and>
      st_section_number st = length (bt_sections (st_table st)) \<and>
      sections_inv max_payload t (bt_sections (st_table st)))"

text \<open>Tables whose services have no descriptors.\<close>

definition no_descs :: "ServiceMap \<Rightarrow> bool" where
  "no_descs m = list_all (\<lambda>e. descs (snd e) = []) m"


text \<open>
  A table as the data model has it: marked valid, with one of the two SDT table ids, its
  services in ascending order of their distinct ids, every running status a 3-bit value and
  every descriptor payload within the one length byte of a descriptor.
\<close>

definition wf_service :: "Service \<Rightarrow> bool" where
  "wf_service serv =
     (running_status serv < 8 \<and> list_all (\<lambda>d. length (payload d) \<le> 255) (descs serv))"

definition wf_table :: "SDT \<Rightarrow> bool" where
  "wf_table t =
     (is_valid t \<and> (table_id t = TID_SDT_ACT \<or> table_id t = TID_SDT_OTH) \<and>
      sorted_wrt (<) (map fst (services t)) \<and>
      list_all (\<lambda>e. wf_service (snd e)) (services t))"

text \<open>
  Every descriptor of the service fits into a section that holds nothing but the three
  constant bytes and the five-byte header of the service.
\<close>

definition fits :: "nat \<Rightarrow> Service \<Rightarrow> bool" where
  "fits max_payload serv = list_all (\<lambda>d. desc_size d \<le> max_payload - 8) (descs serv)"

text \<open>
  What \<^verbatim>\<open>deserialize\<close> makes of sections and of the buffer: the services decoded from a
  list of sections, and from the sections emitted so far followed by the current buffer. A
  byte sequence consists of whole entries when decoding it does not depend on what follows.
\<close>

definition whole_entries :: "u8 list \<Rightarrow> bool" where
  "whole_entries xs =
     (\<forall>m ys. services_loop m (xs @ ys) = services_loop (services_loop m xs) ys)"

definition dec_sections :: "ServiceMap \<Rightarrow> Section list \<Rightarrow> ServiceMap" where
  "dec_sections m sects = foldl (\<lambda>m s. services_loop m (drop 3 (sect_payload s))) m sects"

definition decoded :: "ser_state \<Rightarrow> ServiceMap" where
  "decoded st =
     services_loop (dec_sections [] (bt_sections (st_table st))) (drop 3 (st_buf st))"

definition keys_below :: "ServiceMap \<Rightarrow> u16 \<Rightarrow> bool" where
  "keys_below m k = list_all (\<lambda>e. fst e < k) m"

text \<open>
  The invariants of the loop over the descriptors of one service: what has been decoded
  back so far, and what makes the next pass progress.
\<close>

definition view_inv ::
  "nat \<Rightarrow> SDT \<Rightarrow> ServiceMap \<Rightarrow> u16 \<Rightarrow> Service \<Rightarrow> bool \<Rightarrow> nat \<Rightarrow> ser_state \<Rightarrow> bool" where
  "view_inv mp t M sid serv b k s =
     (enc_inv mp t s \<and> whole_entries (drop 3 (st_buf s)) \<and> k \<le> length (descs serv) \<and>
      (if b then k = 0 \<and> decoded s = M
       else decoded s = M @ [(sid, serv\<lparr>descs := take k (descs serv)\<rparr>)]))"

definition pass_inv :: "nat \<Rightarrow> SDT \<Rightarrow> Service \<Rightarrow> bool \<Rightarrow> nat \<Rightarrow> ser_state \<Rightarrow> bool" where
  "pass_inv mp t serv b k s =
     (enc_inv mp t s \<and> (b \<longrightarrow> 5 \<le> st_remain s) \<and>
      (\<not> b \<and> k < length (descs serv) \<longrightarrow>
         st_buf s = header_bytes t \<and> st_remain s = mp - 3))"

text \<open>
  A section carries a service when the loop of \<^verbatim>\<open>deserialize\<close> finds a header with its
  id in the payload of this section alone. \<open>size_of\<close> is the size of the descriptors stored
  under an id.
\<close>

definition has_entry :: "u16 \<Rightarrow> u8 list \<Rightarrow> bool" where
  "has_entry sid data = (map_find sid (services_loop [] data) \<noteq> None)"

definition carries :: "u16 \<Rightarrow> Section \<Rightarrow> bool" where
  "carries sid s = has_entry sid (drop 3 (sect_payload s))"

definition size_of :: "u16 \<Rightarrow> ServiceMap \<Rightarrow> nat" where
  "size_of sid m = (case map_find sid m of None \<Rightarrow> 0 | Some v \<Rightarrow> binarySize (descs v))"

text \<open>
  The size of the payload that holds the whole table: the three constant bytes and, for every
  service, its five-byte header and its descriptors.
\<close>

definition encoded_size :: "SDT \<Rightarrow> nat" where
  "encoded_size t = 3 + sum_list (map (\<lambda>e. 5 + binarySize (descs (snd e))) (services t))"

text \<open>
  The number of sections that carry a service while \<^verbatim>\<open>serialize\<close> is at work: the
  sections already added to the table and, when it has a header of the service, the section
  under construction. \<open>other_inv\<close> is what the loops of \<^verbatim>\<open>serialize\<close> keep for a service
  while they write other services.
\<close>

definition carriers :: "u16 \<Rightarrow> ser_state \<Rightarrow> nat" where
  "carriers sid st =
     length (filter (carries sid) (bt_sections (st_table st))) +
     (if has_entry sid (drop 3 (st_buf st)) then 1 else 0)"

definition other_inv :: "nat \<Rightarrow> SDT \<Rightarrow> u16 \<Rightarrow> nat \<Rightarrow> ser_state \<Rightarrow> bool" where
  "other_inv mp t x c s =
     (enc_inv mp t s \<and> whole_entries (drop 3 (st_buf s)) \<and> carriers x s = c)"

subsection \<open>Sample objects\<close>

definition sample_blank :: SDT where
  "sample_blank =
     \<lparr>is_valid = False, table_id = TID_SDT_ACT, version = 0, is_current = False,
      ts_id = 0, onetw_id = 0, services = []\<rparr>"

text \<open>A section with one service (id 1, running status 4, no descriptors).\<close>

definition sample_section_a :: Section where
  "sample_section_a =
     new_Section 0x42 True 0x1234 3 True 0 0 [0xAB, 0xCD, 0xFF, 0x00, 0x01, 0xFE, 0x90, 0x00]"

text \<open>A section with the other table id, another version, current flag and extension.\<close>

definition sample_section_b :: Section where
  "sample_section_b = new_Section 0x46 True 0x9999 9 False 1 1 [0xAB, 0xCD, 0xFF]"

text \<open>
  A section of the same table id, with another version, current flag and extension, whose
  payload has two bytes only.
\<close>

definition sample_section_short :: Section where
  "sample_section_short = new_Section 0x42 True 0x9999 9 False 1 1 [0xEE, 0xEE]"

text \<open>A section of the same table id with another version, current flag and extension.\<close>

definition sample_section_c :: Section where
  "sample_section_c =
     new_Section 0x42 True 0x5678 7 False 1 1 [0xAB, 0xCD, 0xFF, 0x00, 0x02, 0xFC, 0x00, 0x00]"

definition sample_used :: SDT where
  "sample_used =
     \<lparr>is_valid = True, table_id = TID_SDT_ACT, version = 5, is_current = True,
      ts_id = 1, onetw_id = 2, services = [(1, Service_default)]\<rparr>"

text \<open>A valid table of \<open>n\<close> services with ids \<open>0\<close> to \<open>n - 1\<close> and no descriptors.\<close>

definition sample_plain :: "nat \<Rightarrow> SDT" where
  "sample_plain n =
     \<lparr>is_valid = True, table_id = TID_SDT_ACT, version = 0, is_current = True,
      ts_id = 0, onetw_id = 0,
      services = map (\<lambda>i. (word_of_nat i, Service_default)) [0..<n]\<rparr>"

text \<open>
  Services with descriptors, and tables made of them: a small one, one with a service of
  1285 descriptor bytes, and one whose second service (200 descriptor bytes) comes after a
  service of 900 descriptor bytes.
\<close>

definition sample_service_a :: Service where
  "sample_service_a =
     \<lparr>EITs_present = True, EITpf_present = False, running_status = 4, CA_controlled = True,
      descs = [Descriptor 0x48 [1, 2, 3], Descriptor 0x50 []]\<rparr>"

definition sample_service_b :: Service where
  "sample_service_b =
     \<lparr>EITs_present = False, EITpf_present = True, running_status = 1, CA_controlled = False,
      descs = [Descriptor 0x48 [9, 9, 9, 9], Descriptor 0x50 [7],
               Descriptor 0x51 [1, 2, 3, 4, 5, 6]]\<rparr>"

definition sample_two :: SDT where
  "sample_two =
     \<lparr>is_valid = True, table_id = TID_SDT_ACT, version = 3, is_current = True,
      ts_id = 0x1234, onetw_id = 0xABCD,
      services = [(1, sample_service_a), (5, sample_service_b)]\<rparr>"

definition sample_service_large :: Service where
  "sample_service_large =
     \<lparr>EITs_present = True, EITpf_present = True, running_status = 4, CA_controlled = False,
      descs = replicate 5 (Descriptor 0x48 (replicate 255 0))\<rparr>"

definition sample_large :: SDT where
  "sample_large =
     \<lparr>is_valid = True, table_id = TID_SDT_ACT, version = 3, is_current = True,
      ts_id = 0x1234, onetw_id = 0xABCD,
      services = [(1, sample_service_a), (7, sample_service_large)]\<rparr>"

definition sample_service_c :: Service where
  "sample_service_c =
     \<lparr>EITs_present = True, EITpf_present = True, running_status = 4, CA_controlled = False,
      descs = replicate 4 (Descriptor 0x48 (replicate 223 0))\<rparr>"

definition sample_service_d :: Service where
  "sample_service_d =
     \<lparr>EITs_present = True, EITpf_present = True, running_status = 4, CA_controlled = False,
      descs = [Descriptor 0x48 (replicate 198 0)]\<rparr>"

definition sample_mid :: SDT where
  "sample_mid =
     \<lparr>is_valid = True, table_id = TID_SDT_ACT, version = 3, is_current = True,
      ts_id = 0x1234, onetw_id = 0xABCD,
      services = [(1, sample_service_c), (2, sample_service_d)]\<rparr>"


section \<open>Bytes and bit fields\<close>

lemma Get_Put: "GetUInt16 (ucast (drop_bit 8 x)) (ucast x) = x"
  unfolding GetUInt16_def
  by (rule bit_word_eqI) (auto simp: bit_simps)

lemma flags_byte_bits:
  "(flags_byte e p AND 0x02 \<noteq> 0) = e"
  "(flags_byte e p AND 0x01 \<noteq> 0) = p"
  by (cases e; cases p; simp add: flags_byte_def)+

lemma bit_16: "bit (0x10::u8) n = (n = 4)"
proof -
  have "bit (2 ^ 4 :: u8) n = (n = 4)"
    by (simp only: bit_exp_iff possible_bit_word) auto
  then show ?thesis by simp
qed

lemma bit_0F: "bit (0x0F::u8) n = (n < 4)"
proof -
  have "bit (mask 4 :: u8) n = (n < 4)"
    by (simp only: bit_mask_iff possible_bit_word) auto
  then show ?thesis by (simp add: mask_eq_exp_minus_1)
qed

lemma bit_0FFF: "bit (0x0FFF::u16) n = (n < 12)"
proof -
  have "bit (mask 12 :: u16) n = (n < 12)"
    by (simp only: bit_mask_iff possible_bit_word) auto
  then show ?thesis by (simp add: mask_eq_exp_minus_1)
qed

lemma bit_F000: "bit (0xF000::u16) n = (12 \<le> n \<and> n < 16)"
proof -
  have "bit (push_bit 12 (mask 4) :: u16) n = (12 \<le> n \<and> n < 16)"
    by (simp only: bit_push_bit_iff bit_mask_iff possible_bit_word) auto
  then show ?thesis by (simp add: mask_eq_exp_minus_1 push_bit_eq_mult)
qed

lemmas bit_consts = bit_16 bit_0F bit_0FFF bit_F000

lemma rs_take: "(rs::u8) < 8 \<Longrightarrow> take_bit 3 rs = rs"
  using less_mask_eq [of rs 3] by (simp add: take_bit_eq_mask)

lemma patch_rs: "rs < 8 \<Longrightarrow> drop_bit 5 (patch b rs ca) = rs"
proof -
  assume "rs < 8"
  then have r: "rs = take_bit 3 rs" by (simp add: rs_take)
  have "drop_bit 5 (patch b (take_bit 3 rs) ca) = take_bit 3 rs"
    unfolding patch_def
    by (rule bit_word_eqI) (auto simp: bit_simps bit_consts simp del: bit_numeral_word_iff)
  with r show ?thesis by simp
qed

lemma patch_ca: "(patch b rs ca AND 0x10 \<noteq> 0) = ca"
proof -
  have "bit (patch b rs ca) 4 = ca"
    unfolding patch_def by (auto simp: bit_simps bit_consts simp del: bit_numeral_word_iff)
  moreover have "(patch b rs ca AND 2 ^ 4 \<noteq> 0) = bit (patch b rs ca) 4"
    by (simp only: and_exp_eq_0_iff_not_bit) simp
  ultimately show ?thesis by simp
qed

lemma patch_low: "GetUInt16 (patch (ucast (drop_bit 8 w)) rs ca) (ucast w) AND 0x0FFF = w AND 0x0FFF"
  unfolding patch_def GetUInt16_def
  by (rule bit_word_eqI) (auto simp: bit_simps bit_consts simp del: bit_numeral_word_iff)

lemma length_field_low:
  assumes "n < 4096"
  shows "unat (length_field n AND 0x0FFF) = n"
proof -
  let ?w = "word_of_nat n :: u16"
  have u: "unat ?w = n" using assms by (simp add: unat_of_nat)
  have w: "take_bit 12 ?w = ?w"
  proof -
    from assms u have "?w < 2 ^ 12" by (simp add: word_less_nat_alt)
    from less_mask_eq [OF this] show ?thesis by (simp add: take_bit_eq_mask)
  qed
  have "(take_bit 12 ?w OR 0xF000) AND 0x0FFF = take_bit 12 ?w"
    by (rule bit_word_eqI) (auto simp: bit_simps bit_consts simp del: bit_numeral_word_iff)
  with w u show ?thesis by (simp add: length_field_def)
qed

lemma patch_len:
  "n < 4096 \<Longrightarrow>
     unat (GetUInt16 (patch (ucast (drop_bit 8 (length_field n))) rs ca)
             (ucast (length_field n)) AND 0x0FFF) = n"
  by (simp only: patch_low length_field_low)

lemma unat_len_byte: "n \<le> 255 \<Longrightarrow> unat (word_of_nat n :: u8) = n"
  by (simp add: unat_of_nat)


section \<open>Facts about deserialization\<close>

lemma sections_loop_ok:
  "section_ok (table_id t) s \<Longrightarrow>
     sections_loop t (s # sects) = sections_loop (section_step t s) sects"
  by (auto simp: section_ok_def section_step_def Let_def split: list.splits)

lemma sections_loop_bad:
  "\<not> section_ok (table_id t) s \<Longrightarrow> is_valid (sections_loop t (s # sects)) = is_valid t"
  by (auto simp: section_ok_def Let_def split: list.splits)

lemma section_step_simps [simp]:
  "table_id (section_step t s) = table_id t"
  "is_valid (section_step t s) = is_valid t"
  "version (section_step t s) = sect_version s"
  "is_current (section_step t s) = sect_isCurrent s"
  "ts_id (section_step t s) = sect_tableIdExtension s"
  by (simp_all add: section_step_def)

lemma sections_loop_valid:
  "\<not> is_valid t \<Longrightarrow>
     is_valid (sections_loop t sects) = list_all (section_ok (table_id t)) sects"
proof (induction sects arbitrary: t)
  case Nil
  then show ?case by simp
next
  case (Cons s sects)
  show ?case
  proof (cases "section_ok (table_id t) s")
    case True
    with Cons show ?thesis by (simp add: sections_loop_ok del: sections_loop.simps)
  next
    case False
    with Cons.prems show ?thesis by (simp add: sections_loop_bad del: sections_loop.simps)
  qed
qed

lemma sections_loop_last:
  "list_all (section_ok (table_id t)) sects \<Longrightarrow> sects \<noteq> [] \<Longrightarrow>
     version (sections_loop t sects) = sect_version (last sects) \<and>
     is_current (sections_loop t sects) = sect_isCurrent (last sects) \<and>
     ts_id (sections_loop t sects) = sect_tableIdExtension (last sects)"
proof (induction sects arbitrary: t)
  case Nil
  then show ?case by simp
next
  case (Cons s sects)
  then have ok: "section_ok (table_id t) s" by simp
  show ?case
  proof (cases sects)
    case Nil
    with ok show ?thesis by (simp add: sections_loop_ok del: sections_loop.simps(2))
  next
    case (Cons s' sects')
    with Cons.prems have "list_all (section_ok (table_id (section_step t s))) sects" "sects \<noteq> []"
      by simp_all
    from Cons.IH [OF this] ok Cons show ?thesis
      by (simp add: sections_loop_ok del: sections_loop.simps(2))
  qed
qed

lemma deserialize_valid_iff: "is_valid (deserialize t table) = decodable table"
  by (auto simp: deserialize_def decodable_def Let_def sections_loop_valid)

lemma bt_clear_eq: "bt_clear table = \<lparr>bt_sections = []\<rparr>"
  by (cases table) (simp add: bt_clear_def)


section \<open>Facts about one service entry\<close>

lemma serialize_fit_props:
  "serialize_fit ds budget = (bs, n) \<Longrightarrow>
     n \<le> length ds \<and> bs = concat (map desc_content (take n ds)) \<and> length bs \<le> budget"
proof (induction ds arbitrary: budget bs n)
  case Nil
  then show ?case by simp
next
  case (Cons d ds)
  show ?case
  proof (cases "desc_size d \<le> budget")
    case True
    obtain bs' n' where r: "serialize_fit ds (budget - desc_size d) = (bs', n')"
      by (cases "serialize_fit ds (budget - desc_size d)")
    from Cons.IH [OF r] Cons.prems True r show ?thesis
      by (auto simp: desc_size_def desc_content_def)
  next
    case False
    with Cons.prems show ?thesis by simp
  qed
qed

lemma put_service_eq:
  assumes "serialize_fit (drop start (descs serv)) (st_remain st - 5) = (bs, n)"
  shows "put_service sid serv start st =
           (st\<lparr>st_buf := st_buf st @ entry_bytes sid serv bs,
               st_remain := st_remain st - 5 - length bs\<rparr>, start + n)"
  using assms
  by (simp add: put_service_def lengthSerialize_def entry_bytes_def PutUInt16_def patch_def
      flags_byte_def length_field_def Let_def nth_append)

lemma length_entry_bytes: "length (entry_bytes sid serv bs) = 5 + length bs"
  by (simp add: entry_bytes_def PutUInt16_def)

lemma Service_overwrite:
  "(r::Service)\<lparr>EITs_present := EITs_present serv, EITpf_present := EITpf_present serv,
      running_status := running_status serv, CA_controlled := CA_controlled serv,
      descs := ds\<rparr> = serv\<lparr>descs := ds\<rparr>"
  by (cases r; cases serv) simp

lemma services_loop_entry:
  assumes "running_status serv < 8" "length bs < 4096"
  shows "services_loop m (entry_bytes sid serv bs @ rest) =
           services_loop
             (map_store sid (serv\<lparr>descs := descs (map_index m sid) @ parse_descs bs\<rparr>) m) rest"
  using assms
  by (simp add: entry_bytes_def PutUInt16_def Let_def Get_Put flags_byte_bits patch_rs patch_ca
      patch_len descs_add_def Service_overwrite)


section \<open>The loop over the descriptors of one service\<close>

lemma service_loop_unfold:
  "service_loop t sid serv b k st =
     (if b \<or> k < length (descs serv)
      then if st_remain (open_section t serv b st) < 5 then None
           else service_loop t sid serv False (snd (loop_pass t sid serv b k st))
                  (fst (loop_pass t sid serv b k st))
      else Some st)"
  by (subst service_loop.simps)
     (simp add: open_section_def loop_pass_def Let_def split: prod.splits)

lemma service_loop_partial:
  assumes run: "service_loop t sid serv b k st = Some st'"
    and init: "I b k st"
    and step: "\<And>b k s. I b k s \<Longrightarrow> b \<or> k < length (descs serv) \<Longrightarrow>
                 5 \<le> st_remain (open_section t serv b s) \<Longrightarrow>
                 I False (snd (loop_pass t sid serv b k s)) (fst (loop_pass t sid serv b k s))"
  shows "\<exists>k'. I False k' st' \<and> length (descs serv) \<le> k'"
proof -
  let ?P = "\<lambda>t' sid' serv' b k s y. t' = t \<longrightarrow> sid' = sid \<longrightarrow> serv' = serv \<longrightarrow> I b k s \<longrightarrow>
              (\<exists>k'. I False k' y \<and> length (descs serv) \<le> k')"
  have "?P t sid serv b k st st'"
  proof (rule service_loop.raw_induct [where P = ?P, OF _ run], intro impI)
    fix loop t' sid' serv' b k s y
    assume ih: "\<And>t' sid' serv' b k s y. loop t' sid' serv' b k s = Some y \<Longrightarrow> ?P t' sid' serv' b k s y"
      and body: "(if b \<or> k < length (descs serv')
           then let st = if b \<and> st_remain s < 5 + binarySize (descs serv')
                         then addSection t' s else s
                in if st_remain st < 5 then None
                   else let (st, start_index) = put_service sid' serv' k st
                        in Let (if start_index < length (descs serv')
                                then addSection t' st else st)
                            (loop t' sid' serv' False start_index)
           else Some s) = Some y"
      and eq: "t' = t" "sid' = sid" "serv' = serv" and i: "I b k s"
    show "\<exists>k'. I False k' y \<and> length (descs serv) \<le> k'"
    proof (cases "b \<or> k < length (descs serv)")
      case False
      with body i eq show ?thesis by auto
    next
      case True
      from body True eq have r: "5 \<le> st_remain (open_section t serv b s)"
        by (auto simp: open_section_def Let_def split: if_splits)
      from body True eq r
      have "loop t sid serv False (snd (loop_pass t sid serv b k s))
              (fst (loop_pass t sid serv b k s)) = Some y"
        by (auto simp: open_section_def loop_pass_def Let_def split: if_splits prod.splits)
      from ih [OF this] step [OF i True r] show ?thesis by simp
    qed
  qed
  with init show ?thesis by simp
qed

lemma service_loop_total:
  assumes init: "I b k st"
    and step: "\<And>b k s. I b k s \<Longrightarrow> b \<or> k < length (descs serv) \<Longrightarrow>
                 5 \<le> st_remain (open_section t serv b s) \<and>
                 I False (snd (loop_pass t sid serv b k s)) (fst (loop_pass t sid serv b k s)) \<and>
                 (if b then k \<le> snd (loop_pass t sid serv b k s)
                  else k < snd (loop_pass t sid serv b k s))"
  shows "\<exists>st' k'. service_loop t sid serv b k st = Some st' \<and> I False k' st' \<and>
           length (descs serv) \<le> k'"
  using init
proof (induction "length (descs serv) - k + (if b then 1 else 0)" arbitrary: b k st
    rule: less_induct)
  case less
  show ?case
  proof (cases "b \<or> k < length (descs serv)")
    case False
    with less.prems show ?thesis
      by (subst service_loop_unfold) auto
  next
    case True
    let ?k = "snd (loop_pass t sid serv b k st)" and ?s = "fst (loop_pass t sid serv b k st)"
    from step [OF less.prems True]
    have r: "5 \<le> st_remain (open_section t serv b st)" and i: "I False ?k ?s"
      and v: "if b then k \<le> ?k else k < ?k"
      by blast+
    from v True
    have "length (descs serv) - ?k + (if False then 1 else 0)
            < length (descs serv) - k + (if b then 1 else 0)"
      by (auto split: if_splits)
    from less.hyps [OF this i] True r show ?thesis
      by (subst service_loop_unfold) simp
  qed
qed


section \<open>The invariant of serialization\<close>

lemma length_header_bytes [simp]: "length (header_bytes t) = 3"
  by (simp add: header_bytes_def PutUInt16_def)

lemma enc_inv_length: "enc_inv mp t st \<Longrightarrow> 3 \<le> length (st_buf st)"
proof -
  assume "enc_inv mp t st"
  then have "length (take 3 (st_buf st)) = 3" by (simp add: enc_inv_def)
  then show ?thesis by simp
qed

lemma sections_inv_snoc:
  assumes "sections_inv mp t sects" "length p \<le> mp" "take 3 p = header_bytes t"
  shows "sections_inv mp t (sects @ [emitted t (length sects) p])"
  unfolding sections_inv_def
proof (intro allI impI)
  fix i assume "i < length (sects @ [emitted t (length sects) p])"
  then consider "i < length sects" | "i = length sects" by fastforce
  then show "\<exists>q. (sects @ [emitted t (length sects) p]) ! i = emitted t i q \<and> length q \<le> mp \<and>
      take 3 q = header_bytes t"
  proof cases
    case 1
    with assms(1) show ?thesis by (simp add: sections_inv_def nth_append)
  next
    case 2
    with assms(2,3) show ?thesis by (auto simp: nth_append)
  qed
qed

lemma addSection_fields:
  "st_buf (addSection t st) = take 3 (st_buf st)"
  "st_remain (addSection t st) = st_remain st + (length (st_buf st) - 3)"
  "bt_sections (st_table (addSection t st)) =
     bt_sections (st_table st) @ [emitted t (st_section_number st) (st_buf st)]"
  "st_section_number (addSection t st) = Suc (st_section_number st)"
  by (simp_all add: addSection_def bt_addSection_def emitted_def)

lemma enc_inv_addSection:
  assumes "enc_inv mp t st"
  shows "enc_inv mp t (addSection t st)"
    and "st_buf (addSection t st) = header_bytes t"
    and "st_remain (addSection t st) = mp - 3"
proof -
  from assms have l: "3 \<le> length (st_buf st)" by (rule enc_inv_length)
  from assms have h: "take 3 (st_buf st) = header_bytes t"
    and s: "length (st_buf st) + st_remain st = mp"
    and n: "st_section_number st = length (bt_sections (st_table st))"
    and i: "sections_inv mp t (bt_sections (st_table st))"
    by (simp_all add: enc_inv_def)
  from s have le: "length (st_buf st) \<le> mp" by simp
  show "st_buf (addSection t st) = header_bytes t" by (simp add: addSection_fields h)
  from l s show "st_remain (addSection t st) = mp - 3" by (simp add: addSection_fields)
  from sections_inv_snoc [OF i le h] l s h n show "enc_inv mp t (addSection t st)"
    by (simp add: enc_inv_def addSection_fields)
qed

lemma put_service_fields:
  assumes "serialize_fit (drop k (descs serv)) (st_remain st - 5) = (bs, n)"
  shows "st_buf (fst (put_service sid serv k st)) = st_buf st @ entry_bytes sid serv bs"
    and "st_remain (fst (put_service sid serv k st)) = st_remain st - 5 - length bs"
    and "st_table (fst (put_service sid serv k st)) = st_table st"
    and "st_section_number (fst (put_service sid serv k st)) = st_section_number st"
    and "snd (put_service sid serv k st) = k + n"
  by (simp_all add: put_service_eq [OF assms])

lemma enc_inv_put_service:
  assumes "enc_inv mp t st" "5 \<le> st_remain st"
  shows "enc_inv mp t (fst (put_service sid serv k st))"
proof -
  obtain bs n where f: "serialize_fit (drop k (descs serv)) (st_remain st - 5) = (bs, n)"
    by (cases "serialize_fit (drop k (descs serv)) (st_remain st - 5)")
  from serialize_fit_props [OF f] have "length bs \<le> st_remain st - 5" by blast
  with assms enc_inv_length [OF assms(1)] show ?thesis
    by (simp add: enc_inv_def put_service_fields [OF f] length_entry_bytes)
qed

lemma enc_inv_open_section: "enc_inv mp t st \<Longrightarrow> enc_inv mp t (open_section t serv b st)"
  by (simp add: open_section_def enc_inv_addSection)

lemma loop_pass_fields:
  "fst (loop_pass t sid serv b k st) =
     (if snd (put_service sid serv k (open_section t serv b st)) < length (descs serv)
      then addSection t (fst (put_service sid serv k (open_section t serv b st)))
      else fst (put_service sid serv k (open_section t serv b st)))"
  "snd (loop_pass t sid serv b k st) = snd (put_service sid serv k (open_section t serv b st))"
  by (simp_all add: loop_pass_def Let_def split_beta)

lemma enc_inv_loop_pass:
  assumes "enc_inv mp t st" "5 \<le> st_remain (open_section t serv b st)"
  shows "enc_inv mp t (fst (loop_pass t sid serv b k st))"
proof -
  have "enc_inv mp t (fst (put_service sid serv k (open_section t serv b st)))"
    using assms by (intro enc_inv_put_service enc_inv_open_section)
  then show ?thesis
    by (simp add: loop_pass_fields enc_inv_addSection)
qed

lemma service_loop_enc_inv:
  assumes "service_loop t sid serv b k st = Some st'" "enc_inv mp t st"
  shows "enc_inv mp t st'"
  using service_loop_partial [where I = "\<lambda>b k s. enc_inv mp t s", OF assms]
  by (auto intro: enc_inv_loop_pass)

lemma services_for_enc_inv:
  "services_for t m st = Some st' \<Longrightarrow> enc_inv mp t st \<Longrightarrow> enc_inv mp t st'"
proof (induction m arbitrary: st)
  case Nil
  then show ?case by simp
next
  case (Cons e m)
  obtain sid serv where e: "e = (sid, serv)" by (cases e)
  let ?s = "if st_remain st < 5 then addSection t st else st"
  from Cons.prems(2) have i: "enc_inv mp t ?s" by (simp add: enc_inv_addSection)
  from Cons.prems(1) e obtain s1 where
    l: "service_loop t sid serv True 0 ?s = Some s1" and r: "services_for t m s1 = Some st'"
    by (auto simp: Let_def split: option.splits)
  from service_loop_enc_inv [OF l i] have "enc_inv mp t s1" .
  from Cons.IH [OF r this] show ?case .
qed

lemma enc_inv_init:
  "3 \<le> mp \<Longrightarrow>
     enc_inv mp t \<lparr>st_table = bt_clear table, st_section_number = 0,
       st_buf = PutUInt16 (onetw_id t) @ [0xFF], st_remain = mp - 3\<rparr>"
  by (simp add: enc_inv_def header_bytes_def PutUInt16_def bt_clear_eq sections_inv_def)

lemma serialize_Some:
  assumes "is_valid t" "serialize mp t table = Some out"
  obtains st where
    "services_for t (services t)
       \<lparr>st_table = bt_clear table, st_section_number = 0,
        st_buf = PutUInt16 (onetw_id t) @ [0xFF], st_remain = mp - 3\<rparr> = Some st"
    "out = st_table (if length (st_buf st) > 3 \<or> bt_sectionCount (st_table st) = 0
                     then addSection t st else st)"
  using assms by (auto simp: serialize_def Let_def split: option.splits)

lemma serialize_sections_inv:
  assumes "3 \<le> mp" "is_valid t" "serialize mp t table = Some out"
  shows "sections_inv mp t (bt_sections out)"
proof -
  from assms(2,3) obtain st where
    f: "services_for t (services t)
       \<lparr>st_table = bt_clear table, st_section_number = 0,
        st_buf = PutUInt16 (onetw_id t) @ [0xFF], st_remain = mp - 3\<rparr> = Some st"
    and o: "out = st_table (if length (st_buf st) > 3 \<or> bt_sectionCount (st_table st) = 0
                     then addSection t st else st)"
    by (rule serialize_Some)
  from services_for_enc_inv [OF f enc_inv_init [OF assms(1)]] have "enc_inv mp t st" .
  then have "enc_inv mp t (if length (st_buf st) > 3 \<or> bt_sectionCount (st_table st) = 0
                     then addSection t st else st)"
    by (simp add: enc_inv_addSection)
  with o show ?thesis by (simp add: enc_inv_def)
qed


section \<open>Tables without descriptors\<close>

lemma service_loop_no_descs:
  assumes "descs serv = []" "5 \<le> st_remain st"
  shows "service_loop t sid serv True 0 st =
           Some (st\<lparr>st_buf := st_buf st @ entry_bytes sid serv [],
                    st_remain := st_remain st - 5\<rparr>)"
proof -
  have f: "serialize_fit (drop 0 (descs serv)) (st_remain st - 5) = ([], 0)"
    using assms by simp
  have o: "open_section t serv True st = st"
    using assms by (simp add: open_section_def binarySize_def)
  have p: "loop_pass t sid serv True 0 st =
      (st\<lparr>st_buf := st_buf st @ entry_bytes sid serv [], st_remain := st_remain st - 5\<rparr>, 0)"
    using assms by (simp add: loop_pass_def o put_service_eq [OF f])
  show ?thesis
    using assms
    by (subst service_loop_unfold, simp add: o p, subst service_loop_unfold, simp)
qed

lemma services_for_no_descs:
  assumes "8 \<le> mp"
  shows "no_descs m \<Longrightarrow> enc_inv mp t st \<Longrightarrow> length (st_buf st) = 3 + 5 * e \<Longrightarrow>
     e \<le> (mp - 3) div 5 \<Longrightarrow>
     \<exists>st' e'. services_for t m st = Some st' \<and> enc_inv mp t st' \<and>
        length (st_buf st') = 3 + 5 * e' \<and> e' \<le> (mp - 3) div 5 \<and>
        (if m = [] then st' = st else 1 \<le> e') \<and>
        length (bt_sections (st_table st')) * ((mp - 3) div 5) + e' =
          length (bt_sections (st_table st)) * ((mp - 3) div 5) + e + length m"
proof (induction m arbitrary: st e)
  case Nil
  then show ?case by auto
next
  case (Cons x m)
  obtain sid serv where x: "x = (sid, serv)" by (cases x)
  let ?k = "(mp - 3) div 5"
  from assms have k: "1 \<le> ?k" by simp
  from Cons.prems x have d: "descs serv = []" and nd: "no_descs m"
    by (simp_all add: no_descs_def)
  from Cons.prems(2) have sum: "length (st_buf st) + st_remain st = mp"
    by (simp add: enc_inv_def)
  let ?s0 = "if st_remain st < 5 then addSection t st else st"
  define e0 where "e0 = (if st_remain st < 5 then 0 else e)"
  have i0: "enc_inv mp t ?s0" using Cons.prems(2) by (simp add: enc_inv_addSection)
  have l0: "length (st_buf ?s0) = 3 + 5 * e0"
    using Cons.prems(2,3) by (simp add: e0_def enc_inv_addSection)
  have r0: "5 \<le> st_remain ?s0"
    using Cons.prems(2) assms by (auto simp: enc_inv_addSection)
  have c0: "length (bt_sections (st_table ?s0)) * ?k + e0 + 1 =
      length (bt_sections (st_table st)) * ?k + e + 1 \<and> e0 + 1 \<le> ?k"
  proof (cases "st_remain st < 5")
    case True
    with sum Cons.prems(3) have "mp - 3 < 5 * e + 5" by simp
    then have "?k < e + 1" by (simp add: div_less_iff_less_mult)
    with Cons.prems(4) have "e = ?k" by simp
    with True k show ?thesis by (simp add: e0_def addSection_fields)
  next
    case False
    with sum Cons.prems(3) have "5 * (e + 1) \<le> mp - 3" by simp
    then have "e + 1 \<le> ?k" by (simp add: less_eq_div_iff_mult_less_eq)
    with False show ?thesis by (simp add: e0_def)
  qed
  let ?s1 = "?s0\<lparr>st_buf := st_buf ?s0 @ entry_bytes sid serv [], st_remain := st_remain ?s0 - 5\<rparr>"
  have l: "service_loop t sid serv True 0 ?s0 = Some ?s1"
    by (rule service_loop_no_descs [OF d r0])
  from service_loop_enc_inv [OF l i0] have i1: "enc_inv mp t ?s1" .
  have l1: "length (st_buf ?s1) = 3 + 5 * (e0 + 1)"
    using l0 by (simp add: length_entry_bytes)
  from c0 have e1: "e0 + 1 \<le> ?k" by simp
  from Cons.IH [OF nd i1 l1 e1] obtain st' e' where
    r: "services_for t m ?s1 = Some st'" "enc_inv mp t st'"
       "length (st_buf st') = 3 + 5 * e'" "e' \<le> ?k"
       "if m = [] then st' = ?s1 else 1 \<le> e'"
       "length (bt_sections (st_table st')) * ?k + e' =
          length (bt_sections (st_table ?s1)) * ?k + (e0 + 1) + length m"
    by blast
  have t1: "bt_sections (st_table ?s1) = bt_sections (st_table ?s0)" by simp
  from r(5) r(3) l1 have "1 \<le> e'" by (auto split: if_splits)
  moreover from r(6) c0 t1
  have "length (bt_sections (st_table st')) * ?k + e' =
          length (bt_sections (st_table st)) * ?k + e + length (x # m)"
    by simp
  moreover have "services_for t (x # m) st = Some st'"
    using l r(1) x by (simp add: Let_def)
  ultimately show ?case using r(2,3,4) by auto
qed

lemma serialize_no_descs:
  assumes "8 \<le> mp" "is_valid t" "no_descs (services t)"
  shows "\<exists>out. serialize mp t table = Some out \<and>
           bt_sectionCount out =
             (if services t = [] then 1
              else (length (services t) - 1) div ((mp - 3) div 5) + 1)"
proof -
  let ?k = "(mp - 3) div 5"
  let ?st = "\<lparr>st_table = bt_clear table, st_section_number = 0,
        st_buf = PutUInt16 (onetw_id t) @ [0xFF], st_remain = mp - 3\<rparr>"
  from assms(1) have i: "enc_inv mp t ?st" by (simp add: enc_inv_init)
  have "length (st_buf ?st) = 3 + 5 * 0" by (simp add: PutUInt16_def)
  from services_for_no_descs [OF assms(1,3) i this] obtain st' e' where
    r: "services_for t (services t) ?st = Some st'" "enc_inv mp t st'"
       "length (st_buf st') = 3 + 5 * e'" "e' \<le> ?k"
       "if services t = [] then st' = ?st else 1 \<le> e'"
       "length (bt_sections (st_table st')) * ?k + e' =
          length (bt_sections (st_table ?st)) * ?k + 0 + length (services t)"
    by (auto simp del: ser_state.simps)
  let ?out = "st_table (if length (st_buf st') > 3 \<or> bt_sectionCount (st_table st') = 0
                     then addSection t st' else st')"
  have s: "serialize mp t table = Some ?out"
    using assms(2) r(1) by (simp add: serialize_def Let_def)
  show ?thesis
  proof (cases "services t = []")
    case True
    with r(5) have "st' = ?st" by simp
    with s True show ?thesis
      by (simp add: bt_sectionCount_def bt_clear_eq addSection_fields)
  next
    case False
    with r(5) have e: "1 \<le> e'" by simp
    from False have n: "1 \<le> length (services t)" by (cases "services t") simp_all
    from r(6) have "length (bt_sections (st_table st')) * ?k + e' = length (services t)"
      by (simp add: bt_clear_eq)
    with e have "length (services t) - 1 = length (bt_sections (st_table st')) * ?k + (e' - 1)"
      by simp
    moreover from e r(4) have "e' - 1 < ?k" by simp
    ultimately have "(length (services t) - 1) div ?k = length (bt_sections (st_table st'))"
      by simp
    with s False e r(3) show ?thesis
      by (simp add: bt_sectionCount_def addSection_fields)
  qed
qed


section \<open>Facts about the sample tables and the emitted sections\<close>

lemma no_descs_sample_plain: "no_descs (services (sample_plain n))"
  by (simp add: no_descs_def sample_plain_def Service_default_def list_all_iff)

lemma length_sample_plain: "length (services (sample_plain n)) = n"
  by (simp add: sample_plain_def)

lemma is_valid_sample_plain: "is_valid (sample_plain n)"
  by (simp add: sample_plain_def)

lemma serialize_sample_plain:
  assumes "8 \<le> mp" "0 < n"
  shows "\<exists>out. serialize mp (sample_plain n) table = Some out \<and>
           bt_sectionCount out = (n - 1) div ((mp - 3) div 5) + 1"
proof -
  from assms(2) have "services (sample_plain n) \<noteq> []"
    using length_sample_plain [of n] by auto
  with serialize_no_descs [OF assms(1) is_valid_sample_plain no_descs_sample_plain, of n table]
  show ?thesis by (simp only: length_sample_plain if_False)
qed

lemma emitted_fields:
  "sect_payload (emitted t i p) = p"
  "sect_sectionNumber (emitted t i p) = word_of_nat i"
  "sect_lastSectionNumber (emitted t i p) = word_of_nat i"
  "sect_tableId (emitted t i p) = table_id t"
  "sect_version (emitted t i p) = version t"
  "sect_isCurrent (emitted t i p) = is_current t"
  "sect_tableIdExtension (emitted t i p) = ts_id t"
  "sect_isValid (emitted t i p)"
  by (simp_all add: emitted_def new_Section_def)

lemma byte_of_nat_less: "i < j \<Longrightarrow> j < 256 \<Longrightarrow> (word_of_nat i :: u8) < word_of_nat j"
  by (simp add: word_less_nat_alt unat_of_nat)

lemma ceil_div_eq:
  assumes "1 \<le> (k::nat)" "1 \<le> n"
  shows "(n - 1) div k + 1 = (n + k - 1) div k"
proof -
  from assms have e: "n + k - 1 = (n - 1) + k" by simp
  from assms have "((n - 1) + k) div k = (n - 1) div k + 1"
    by (simp only: div_add_self2)
  then show ?thesis by (simp only: e)
qed


lemma binarySize_parse_descs: "binarySize (parse_descs bytes) \<le> length bytes"
proof (induction bytes rule: parse_descs.induct)
  case (1 t l rest)
  then show ?case by (simp add: binarySize_def desc_size_def)
qed (simp_all add: binarySize_def)

lemma binarySize_concat:
  "length (concat (map desc_content ds)) = binarySize ds"
  by (induction ds) (simp_all add: binarySize_def desc_size_def desc_content_def)


section \<open>Decoding what was encoded\<close>

lemma parse_descs_content:
  "length (payload d) \<le> 255 \<Longrightarrow> parse_descs (desc_content d @ rest) = d # parse_descs rest"
  by (cases d) (simp add: desc_content_def unat_len_byte)

lemma parse_descs_concat:
  "list_all (\<lambda>d. length (payload d) \<le> 255) ds \<Longrightarrow>
     parse_descs (concat (map desc_content ds)) = ds"
proof (induction ds)
  case Nil
  then show ?case by simp
next
  case (Cons d ds)
  then show ?case using parse_descs_content [of d "concat (map desc_content ds)"] by simp
qed

lemma serialize_fit_progress:
  "ds \<noteq> [] \<Longrightarrow> desc_size (hd ds) \<le> budget \<Longrightarrow> 1 \<le> snd (serialize_fit ds budget)"
  by (cases ds) (simp_all add: split_beta)


lemma keys_below_find: "keys_below m k \<Longrightarrow> map_find k m = None"
  by (induction m) (auto simp: keys_below_def)

lemma keys_below_store: "keys_below m k \<Longrightarrow> map_store k v m = m @ [(k, v)]"
  by (induction m) (auto simp: keys_below_def)

lemma keys_below_find_last: "keys_below m k \<Longrightarrow> map_find k (m @ [(k, v)]) = Some v"
  by (induction m) (auto simp: keys_below_def)

lemma keys_below_store_last:
  "keys_below m k \<Longrightarrow> map_store k v' (m @ [(k, v)]) = m @ [(k, v')]"
  by (induction m) (auto simp: keys_below_def)

lemma keys_below_index: "keys_below m k \<Longrightarrow> map_index m k = Service_default"
  by (simp add: map_index_def keys_below_find)

lemma keys_below_index_last: "keys_below m k \<Longrightarrow> map_index (m @ [(k, v)]) k = v"
  by (simp add: map_index_def keys_below_find_last)


lemma whole_entries_Nil: "whole_entries []"
  by (simp add: whole_entries_def)

lemma whole_entries_append:
  "whole_entries xs \<Longrightarrow> whole_entries ys \<Longrightarrow> whole_entries (xs @ ys)"
  by (simp add: whole_entries_def)

lemma services_loop_entry_end:
  assumes "running_status serv < 8" "length bs < 4096"
  shows "services_loop m (entry_bytes sid serv bs) =
           map_store sid (serv\<lparr>descs := descs (map_index m sid) @ parse_descs bs\<rparr>) m"
  using services_loop_entry [OF assms, of m sid "[]"] by simp

lemma whole_entries_entry:
  assumes "running_status serv < 8" "length bs < 4096"
  shows "whole_entries (entry_bytes sid serv bs)"
  unfolding whole_entries_def
  by (simp add: services_loop_entry [OF assms] services_loop_entry_end [OF assms])


lemma dec_sections_snoc:
  "dec_sections m (sects @ [s]) = services_loop (dec_sections m sects) (drop 3 (sect_payload s))"
  by (simp add: dec_sections_def)

lemma decoded_addSection: "decoded (addSection t st) = decoded st"
  by (simp add: decoded_def addSection_fields dec_sections_snoc emitted_fields)

lemma whole_entries_addSection: "whole_entries (drop 3 (st_buf (addSection t st)))"
  by (simp add: addSection_fields whole_entries_Nil)

lemma decoded_open_section: "decoded (open_section t serv b st) = decoded st"
  by (simp add: open_section_def decoded_addSection)

lemma whole_entries_open_section:
  "whole_entries (drop 3 (st_buf st)) \<Longrightarrow>
     whole_entries (drop 3 (st_buf (open_section t serv b st)))"
  by (simp add: open_section_def whole_entries_addSection)

lemma put_service_decoded:
  assumes inv: "enc_inv mp t st" and mp: "mp \<le> 4103" and r: "5 \<le> st_remain st"
    and wf: "wf_service serv" and w: "whole_entries (drop 3 (st_buf st))"
    and k: "k \<le> length (descs serv)"
  shows "enc_inv mp t (fst (put_service sid serv k st))"
    and "whole_entries (drop 3 (st_buf (fst (put_service sid serv k st))))"
    and "decoded (fst (put_service sid serv k st)) =
           map_store sid
             (serv\<lparr>descs := descs (map_index (decoded st) sid) @
                 take (snd (put_service sid serv k st) - k) (drop k (descs serv))\<rparr>)
             (decoded st)"
    and "k \<le> snd (put_service sid serv k st)"
    and "snd (put_service sid serv k st) \<le> length (descs serv)"
proof -
  obtain bs n where f: "serialize_fit (drop k (descs serv)) (st_remain st - 5) = (bs, n)"
    by (cases "serialize_fit (drop k (descs serv)) (st_remain st - 5)")
  note pf = put_service_fields [OF f]
  from serialize_fit_props [OF f]
  have n: "n \<le> length (drop k (descs serv))"
    and bs: "bs = concat (map desc_content (take n (drop k (descs serv))))"
    and len: "length bs \<le> st_remain st - 5"
    by blast+
  from inv have l3: "3 \<le> length (st_buf st)" by (rule enc_inv_length)
  from inv have "length (st_buf st) + st_remain st = mp" by (simp add: enc_inv_def)
  with l3 len mp r have l4: "length bs < 4096" by simp
  from wf have rs: "running_status serv < 8"
    and pl: "list_all (\<lambda>d. length (payload d) \<le> 255) (descs serv)"
    by (simp_all add: wf_service_def)
  from pl have "list_all (\<lambda>d. length (payload d) \<le> 255) (take n (drop k (descs serv)))"
    by (auto simp: list_all_iff dest: in_set_takeD in_set_dropD)
  from parse_descs_concat [OF this] bs
  have pd: "parse_descs bs = take n (drop k (descs serv))" by simp
  show "enc_inv mp t (fst (put_service sid serv k st))"
    by (rule enc_inv_put_service [OF inv r])
  from l3 have d3: "drop 3 (st_buf (fst (put_service sid serv k st))) =
      drop 3 (st_buf st) @ entry_bytes sid serv bs"
    by (simp add: pf)
  show "whole_entries (drop 3 (st_buf (fst (put_service sid serv k st))))"
    unfolding d3 by (intro whole_entries_append w whole_entries_entry rs l4)
  from w have "services_loop m (drop 3 (st_buf st) @ entry_bytes sid serv bs) =
      services_loop (services_loop m (drop 3 (st_buf st))) (entry_bytes sid serv bs)" for m
    by (simp add: whole_entries_def)
  then show "decoded (fst (put_service sid serv k st)) =
           map_store sid
             (serv\<lparr>descs := descs (map_index (decoded st) sid) @
                 take (snd (put_service sid serv k st) - k) (drop k (descs serv))\<rparr>)
             (decoded st)"
    unfolding decoded_def d3
    by (simp add: pf services_loop_entry_end [OF rs l4] pd)
  show "k \<le> snd (put_service sid serv k st)" by (simp add: pf)
  from n k show "snd (put_service sid serv k st) \<le> length (descs serv)" by (simp add: pf)
qed

lemma view_inv_step:
  assumes mp: "mp \<le> 4103" and wf: "wf_service serv" and kb: "keys_below M sid"
    and i: "view_inv mp t M sid serv b k s"
    and r: "5 \<le> st_remain (open_section t serv b s)"
  shows "view_inv mp t M sid serv False (snd (loop_pass t sid serv b k s))
           (fst (loop_pass t sid serv b k s))"
proof -
  let ?s1 = "open_section t serv b s"
  let ?s2 = "fst (put_service sid serv k ?s1)" and ?k = "snd (put_service sid serv k ?s1)"
  from i have inv: "enc_inv mp t s" and w: "whole_entries (drop 3 (st_buf s))"
    and k: "k \<le> length (descs serv)"
    by (simp_all add: view_inv_def)
  have inv1: "enc_inv mp t ?s1" by (rule enc_inv_open_section [OF inv])
  have w1: "whole_entries (drop 3 (st_buf ?s1))" by (rule whole_entries_open_section [OF w])
  note p = put_service_decoded [OF inv1 mp r wf w1 k, of sid]
  have d2: "decoded ?s2 = M @ [(sid, serv\<lparr>descs := take ?k (descs serv)\<rparr>)]"
  proof (cases b)
    case True
    with i have "k = 0" "decoded s = M" by (simp_all add: view_inv_def)
    with p(3) kb show ?thesis
      by (simp add: decoded_open_section keys_below_index keys_below_store Service_default_def)
  next
    case False
    with i have d: "decoded s = M @ [(sid, serv\<lparr>descs := take k (descs serv)\<rparr>)]"
      by (simp add: view_inv_def)
    from p(4) have "take k (descs serv) @ take (?k - k) (drop k (descs serv)) =
        take ?k (descs serv)"
      by (metis le_add_diff_inverse take_add)
    with p(3) kb d show ?thesis
      by (simp add: decoded_open_section keys_below_index_last keys_below_store_last)
  qed
  show ?thesis
    unfolding view_inv_def loop_pass_fields
    using p(1,2,5) d2
    by (simp add: enc_inv_addSection decoded_addSection whole_entries_addSection
        whole_entries_Nil)
qed

lemma service_loop_view:
  assumes mp: "mp \<le> 4103" and wf: "wf_service serv" and kb: "keys_below M sid"
    and run: "service_loop t sid serv True 0 st = Some st'"
    and inv: "enc_inv mp t st" and w: "whole_entries (drop 3 (st_buf st))"
    and d: "decoded st = M"
  shows "enc_inv mp t st' \<and> whole_entries (drop 3 (st_buf st')) \<and>
         decoded st' = M @ [(sid, serv)]"
proof -
  have "view_inv mp t M sid serv True 0 st"
    using inv w d by (simp add: view_inv_def)
  from service_loop_partial [where I = "view_inv mp t M sid serv", OF run this]
    view_inv_step [OF mp wf kb]
  obtain k' where "view_inv mp t M sid serv False k' st'" "length (descs serv) \<le> k'"
    by blast
  then show ?thesis by (simp add: view_inv_def)
qed

lemma pass_inv_step:
  assumes mp: "8 \<le> mp" and ft: "fits mp serv"
    and i: "pass_inv mp t serv b k s" and c: "b \<or> k < length (descs serv)"
  shows "5 \<le> st_remain (open_section t serv b s) \<and>
         pass_inv mp t serv False (snd (loop_pass t sid serv b k s))
           (fst (loop_pass t sid serv b k s)) \<and>
         (if b then k \<le> snd (loop_pass t sid serv b k s)
          else k < snd (loop_pass t sid serv b k s))"
proof -
  let ?s1 = "open_section t serv b s"
  from i have inv: "enc_inv mp t s" by (simp add: pass_inv_def)
  have r: "5 \<le> st_remain ?s1"
  proof (cases b)
    case True
    with i mp inv show ?thesis
      by (auto simp: pass_inv_def open_section_def enc_inv_addSection)
  next
    case False
    with i c mp show ?thesis by (simp add: pass_inv_def open_section_def)
  qed
  have inv': "enc_inv mp t (fst (loop_pass t sid serv b k s))"
    by (rule enc_inv_loop_pass [OF inv r])
  have p: "pass_inv mp t serv False (snd (loop_pass t sid serv b k s))
           (fst (loop_pass t sid serv b k s))"
    unfolding pass_inv_def
    using inv' enc_inv_addSection [OF enc_inv_put_service [OF enc_inv_open_section [OF inv] r]]
    by (auto simp: loop_pass_fields)
  obtain bs n where f: "serialize_fit (drop k (descs serv)) (st_remain ?s1 - 5) = (bs, n)"
    by (cases "serialize_fit (drop k (descs serv)) (st_remain ?s1 - 5)")
  have ge: "k \<le> snd (loop_pass t sid serv b k s)"
    by (simp add: loop_pass_fields put_service_fields [OF f])
  have gt: "k < snd (loop_pass t sid serv b k s)" if nb: "\<not> b"
  proof -
    from nb c have kl: "k < length (descs serv)" by simp
    with nb i have s1: "?s1 = s" "st_remain s = mp - 3"
      by (simp_all add: pass_inv_def open_section_def)
    from kl have ne: "drop k (descs serv) \<noteq> []" by simp
    from kl have "hd (drop k (descs serv)) \<in> set (descs serv)"
      by (simp add: hd_drop_conv_nth)
    with ft have "desc_size (hd (drop k (descs serv))) \<le> mp - 8"
      by (simp add: fits_def list_all_iff)
    with s1 have "desc_size (hd (drop k (descs serv))) \<le> st_remain ?s1 - 5" by simp
    from serialize_fit_progress [OF ne this] f have "1 \<le> n" by simp
    then show ?thesis by (simp add: loop_pass_fields put_service_fields [OF f])
  qed
  from ge gt have v: "if b then k \<le> snd (loop_pass t sid serv b k s)
          else k < snd (loop_pass t sid serv b k s)"
    by (cases b) simp_all
  from r p v show ?thesis by blast
qed

lemma service_loop_returns:
  assumes mp: "8 \<le> mp" and ft: "fits mp serv"
    and inv: "enc_inv mp t st" and r: "5 \<le> st_remain st"
  shows "\<exists>st'. service_loop t sid serv True 0 st = Some st'"
proof -
  have "pass_inv mp t serv True 0 st" using inv r by (simp add: pass_inv_def)
  from service_loop_total [where I = "pass_inv mp t serv", OF this pass_inv_step [OF mp ft]]
  show ?thesis by blast
qed

lemma services_for_returns:
  "m = [] \<or> 8 \<le> mp \<Longrightarrow> list_all (\<lambda>e. fits mp (snd e)) m \<Longrightarrow> enc_inv mp t st \<Longrightarrow>
     \<exists>st'. services_for t m st = Some st'"
proof (induction m arbitrary: st)
  case Nil
  then show ?case by simp
next
  case (Cons e m)
  obtain sid serv where e: "e = (sid, serv)" by (cases e)
  from Cons.prems(1) have mp: "8 \<le> mp" by simp
  let ?s = "if st_remain st < 5 then addSection t st else st"
  from Cons.prems(3) have i: "enc_inv mp t ?s" by (simp add: enc_inv_addSection)
  from Cons.prems(3) mp have r: "5 \<le> st_remain ?s" by (auto simp: enc_inv_addSection)
  from Cons.prems(2) e have ft: "fits mp serv" and fm: "list_all (\<lambda>e. fits mp (snd e)) m"
    by simp_all
  from service_loop_returns [OF mp ft i r] obtain s1 where
    l: "service_loop t sid serv True 0 ?s = Some s1" by blast
  from service_loop_enc_inv [OF l i] have i1: "enc_inv mp t s1" .
  from mp have "m = [] \<or> 8 \<le> mp" by simp
  from Cons.IH [OF this fm i1] obtain st' where "services_for t m s1 = Some st'" by blast
  with l e show ?case by (simp add: Let_def)
qed

lemma services_for_view:
  assumes mp: "mp \<le> 4103"
  shows "services_for t m st = Some st' \<Longrightarrow> sorted_wrt (<) (map fst (M @ m)) \<Longrightarrow>
           list_all (\<lambda>e. wf_service (snd e)) m \<Longrightarrow> enc_inv mp t st \<Longrightarrow>
           whole_entries (drop 3 (st_buf st)) \<Longrightarrow> decoded st = M \<Longrightarrow>
           enc_inv mp t st' \<and> decoded st' = M @ m"
proof (induction m arbitrary: st M)
  case Nil
  then show ?case by simp
next
  case (Cons e m)
  obtain sid serv where e: "e = (sid, serv)" by (cases e)
  let ?s = "if st_remain st < 5 then addSection t st else st"
  from Cons.prems(4) have i: "enc_inv mp t ?s" by (simp add: enc_inv_addSection)
  from Cons.prems(5) have w: "whole_entries (drop 3 (st_buf ?s))"
    by (simp add: whole_entries_addSection)
  from Cons.prems(6) have d: "decoded ?s = M" by (simp add: decoded_addSection)
  from Cons.prems(1) e obtain s1 where
    l: "service_loop t sid serv True 0 ?s = Some s1" and r: "services_for t m s1 = Some st'"
    by (auto simp: Let_def split: option.splits)
  from Cons.prems(2) e have kb: "keys_below M sid"
    by (auto simp: sorted_wrt_append keys_below_def list_all_iff)
  from Cons.prems(3) e have wf: "wf_service serv"
    and wm: "list_all (\<lambda>e. wf_service (snd e)) m"
    by simp_all
  from service_loop_view [OF mp wf kb l i w d]
  have i1: "enc_inv mp t s1" and w1: "whole_entries (drop 3 (st_buf s1))"
    and d1: "decoded s1 = M @ [(sid, serv)]"
    by simp_all
  from Cons.prems(2) e have srt: "sorted_wrt (<) (map fst ((M @ [(sid, serv)]) @ m))" by simp
  from Cons.IH [OF r srt wm i1 w1 d1] e show ?case by simp
qed

lemma decoded_init:
  "decoded \<lparr>st_table = bt_clear table, st_section_number = 0,
       st_buf = PutUInt16 (onetw_id t) @ [0xFF], st_remain = mp - 3\<rparr> = []"
  by (simp add: decoded_def bt_clear_eq dec_sections_def PutUInt16_def)

lemma whole_entries_init:
  "whole_entries (drop 3 (st_buf \<lparr>st_table = bt_clear table, st_section_number = 0,
       st_buf = PutUInt16 (onetw_id t) @ [0xFF], st_remain = mp - 3\<rparr>))"
  by (simp add: PutUInt16_def whole_entries_Nil)

lemma serialize_decoded:
  assumes "3 \<le> mp" "mp \<le> 4103" "wf_table t" "serialize mp t table = Some out"
  shows "sections_inv mp t (bt_sections out) \<and> bt_sections out \<noteq> [] \<and>
         dec_sections [] (bt_sections out) = services t"
proof -
  from assms(3) have v: "is_valid t" and srt: "sorted_wrt (<) (map fst ([] @ services t))"
    and wf: "list_all (\<lambda>e. wf_service (snd e)) (services t)"
    by (simp_all add: wf_table_def)
  let ?st0 = "\<lparr>st_table = bt_clear table, st_section_number = 0,
        st_buf = PutUInt16 (onetw_id t) @ [0xFF], st_remain = mp - 3\<rparr>"
  from v assms(4) obtain st where
    f: "services_for t (services t) ?st0 = Some st"
    and o: "out = st_table (if length (st_buf st) > 3 \<or> bt_sectionCount (st_table st) = 0
                     then addSection t st else st)"
    by (rule serialize_Some)
  from services_for_view [OF assms(2) f srt wf enc_inv_init [OF assms(1)] whole_entries_init
      decoded_init]
  have i: "enc_inv mp t st" and d: "decoded st = services t" by simp_all
  from i have l3: "3 \<le> length (st_buf st)" by (rule enc_inv_length)
  have si: "sections_inv mp t (bt_sections out)"
    by (rule serialize_sections_inv [OF assms(1) v assms(4)])
  show ?thesis
  proof (cases "length (st_buf st) > 3 \<or> bt_sectionCount (st_table st) = 0")
    case True
    with o have "bt_sections out =
        bt_sections (st_table st) @ [emitted t (st_section_number st) (st_buf st)]"
      by (simp add: addSection_fields)
    with d si show ?thesis
      by (simp add: dec_sections_snoc decoded_def emitted_fields)
  next
    case False
    with l3 have "drop 3 (st_buf st) = []" by simp
    with d have "dec_sections [] (bt_sections (st_table st)) = services t"
      by (simp add: decoded_def)
    with False o si show ?thesis by (auto simp: bt_sectionCount_def)
  qed
qed

lemma header_bytes_nth:
  assumes "take 3 p = header_bytes t"
  shows "3 \<le> length p" and "GetUInt16 (p ! 0) (p ! 1) = onetw_id t"
proof -
  from assms have "length (take 3 p) = 3" by simp
  then show l: "3 \<le> length p" by simp
  from l have "p ! 0 = take 3 p ! 0" "p ! 1 = take 3 p ! 1" by simp_all
  with assms show "GetUInt16 (p ! 0) (p ! 1) = onetw_id t"
    by (simp add: header_bytes_def PutUInt16_def Get_Put)
qed

lemma section_step_emitted:
  assumes "take 3 p = header_bytes t" "table_id u = table_id t"
  shows "section_ok (table_id u) (emitted t i p)"
    and "section_step u (emitted t i p) =
           t\<lparr>is_valid := is_valid u,
              services := services_loop (services u) (drop 3 p)\<rparr>"
proof -
  from header_bytes_nth [OF assms(1)] assms(2)
  show "section_ok (table_id u) (emitted t i p)"
    by (simp add: section_ok_def emitted_fields)
  from header_bytes_nth [OF assms(1)] assms(2)
  show "section_step u (emitted t i p) =
           t\<lparr>is_valid := is_valid u,
              services := services_loop (services u) (drop 3 p)\<rparr>"
    by (cases t; cases u) (simp add: section_step_def emitted_fields)
qed

lemma sections_loop_emitted:
  "list_all (\<lambda>s. \<exists>i p. s = emitted t i p \<and> take 3 p = header_bytes t) sects \<Longrightarrow>
   sects \<noteq> [] \<Longrightarrow> table_id u = table_id t \<Longrightarrow>
     sections_loop u sects = t\<lparr>is_valid := True, services := dec_sections (services u) sects\<rparr>"
proof (induction sects arbitrary: u)
  case Nil
  then show ?case by simp
next
  case (Cons s sects)
  from Cons.prems(1) obtain i p where s: "s = emitted t i p" and h: "take 3 p = header_bytes t"
    by auto
  note st = section_step_emitted [OF h Cons.prems(3), of i]
  let ?u = "section_step u s"
  have eq: "sections_loop u (s # sects) = sections_loop ?u sects"
    using st(1) s by (simp add: sections_loop_ok del: sections_loop.simps)
  have ds: "dec_sections (services u) (s # sects) = dec_sections (services ?u) sects"
    using s st(2) by (simp add: dec_sections_def emitted_fields)
  show ?case
  proof (cases sects)
    case Nil
    with eq s st(2) show ?thesis
      by (cases t) (simp add: dec_sections_def emitted_fields)
  next
    case (Cons s' sects')
    then have ne: "sects \<noteq> []" by simp
    from Cons.prems(1) have la: "list_all (\<lambda>s. \<exists>i p. s = emitted t i p \<and> take 3 p = header_bytes t) sects"
      by simp
    have "table_id ?u = table_id t" using s st(2) by simp
    from Cons.IH [OF la ne this] eq ds show ?thesis by simp
  qed
qed

lemma serialize_returns_fits:
  assumes "3 \<le> mp" "services t = [] \<or> 8 \<le> mp"
    and "list_all (\<lambda>e. fits mp (snd e)) (services t)"
  shows "\<exists>out. serialize mp t table = Some out"
proof (cases "is_valid t")
  case False
  then show ?thesis by (simp add: serialize_def)
next
  case True
  from services_for_returns [OF assms(2,3) enc_inv_init [OF assms(1)], of t table]
  obtain st where "services_for t (services t)
       \<lparr>st_table = bt_clear table, st_section_number = 0,
        st_buf = PutUInt16 (onetw_id t) @ [0xFF], st_remain = mp - 3\<rparr> = Some st"
    by blast
  with True show ?thesis by (simp add: serialize_def Let_def)
qed

lemma deserialize_serialize:
  assumes mp3: "3 \<le> mp" and mp: "mp \<le> 4103" and wf: "wf_table t"
    and s: "serialize mp t table = Some out"
  shows "deserialize t0 out = t"
proof -
  from wf have v: "is_valid t" by (simp add: wf_table_def)
  from serialize_decoded [OF mp3 mp wf s]
  have si: "sections_inv mp t (bt_sections out)" and ne: "bt_sections out \<noteq> []"
    and d: "dec_sections [] (bt_sections out) = services t"
    by simp_all
  from si have la: "list_all (\<lambda>s. \<exists>i p. s = emitted t i p \<and> take 3 p = header_bytes t)
      (bt_sections out)"
    unfolding sections_inv_def list_all_length by blast
  then have val: "list_all sect_isValid (bt_sections out)"
    by (auto simp: list_all_iff emitted_fields)
  from la ne have tid: "bt_tableId out = table_id t"
    by (cases "bt_sections out") (auto simp: bt_tableId_def emitted_fields)
  let ?u = "t0\<lparr>is_valid := False, ts_id := 0, onetw_id := 0, services := [],
      table_id := bt_tableId out\<rparr>"
  from wf tid ne val have "deserialize t0 out = sections_loop ?u (bt_sections out)"
    by (auto simp: deserialize_def Let_def bt_isValid_def wf_table_def)
  also from tid have "\<dots> = t\<lparr>is_valid := True, services := dec_sections (services ?u) (bt_sections out)\<rparr>"
    by (intro sections_loop_emitted [OF la ne]) simp
  also from d v have "\<dots> = t" by simp
  finally show ?thesis .
qed

section \<open>Sections that carry a service\<close>

lemma map_find_store:
  "map_find k (map_store k' v m) = (if k = k' then Some v else map_find k m)"
  by (induction m) auto

lemma services_loop_short: "length data < 5 \<Longrightarrow> services_loop m data = m"
  by (induction m data rule: services_loop.induct) simp_all

lemma services_loop_long:
  "5 \<le> length data \<Longrightarrow>
     \<exists>k L. L + 5 \<le> length data \<and>
       (\<forall>m. \<exists>v. services_loop m data = services_loop (map_store k v m) (drop (L + 5) data) \<and>
            binarySize (descs v) \<le> binarySize (descs (map_index m k)) + L)"
proof (induction "[] :: ServiceMap" data rule: services_loop.induct)
  case (1 d0 d1 d2 d3 d4 rest)
  let ?data = "d0 # d1 # d2 # d3 # d4 # rest"
  let ?L = "min (unat (GetUInt16 d3 d4 AND 0x0FFF)) (length rest)"
  have dr: "drop (?L + 5) ?data = drop ?L rest"
  proof -
    have "drop (?L + 5) ?data = drop ?L (drop 5 ?data)" by (simp only: drop_drop)
    then show ?thesis by simp
  qed
  have "\<exists>v. services_loop m ?data =
            services_loop (map_store (GetUInt16 d0 d1) v m) (drop (?L + 5) ?data) \<and>
            binarySize (descs v) \<le> binarySize (descs (map_index m (GetUInt16 d0 d1))) + ?L" for m
  proof -
    let ?v = "(map_index m (GetUInt16 d0 d1))
                \<lparr>EITs_present := (d2 AND 0x02) \<noteq> 0, EITpf_present := (d2 AND 0x01) \<noteq> 0,
                 running_status := drop_bit 5 d3, CA_controlled := (d3 AND 0x10) \<noteq> 0,
                 descs := descs_add (descs (map_index m (GetUInt16 d0 d1))) (take ?L rest)\<rparr>"
    have "services_loop m ?data = services_loop (map_store (GetUInt16 d0 d1) ?v m) (drop (?L + 5) ?data)"
      unfolding dr by (simp add: Let_def)
    moreover have "binarySize (descs ?v) \<le> binarySize (descs (map_index m (GetUInt16 d0 d1))) + ?L"
      using binarySize_parse_descs [of "take ?L rest"]
      by (simp add: descs_add_def binarySize_def)
    ultimately show ?thesis by blast
  qed
  moreover have "?L + 5 \<le> length ?data" by simp
  ultimately show ?case by blast
qed simp_all

lemma size_of_index: "binarySize (descs (map_index m k)) = size_of k m"
  by (simp add: map_index_def size_of_def Service_default_def binarySize_def split: option.splits)

lemma has_entry_iff:
  "(map_find sid (services_loop m data) \<noteq> None) = (map_find sid m \<noteq> None \<or> has_entry sid data)"
proof (induction "length data" arbitrary: m data rule: less_induct)
  case less
  show ?case
  proof (cases "length data < 5")
    case True
    then show ?thesis by (simp add: services_loop_short has_entry_def)
  next
    case False
    then have "5 \<le> length data" by simp
    from services_loop_long [OF this] obtain k L where l: "L + 5 \<le> length data"
      and st: "\<And>m. \<exists>v. services_loop m data = services_loop (map_store k v m) (drop (L + 5) data) \<and>
            binarySize (descs v) \<le> binarySize (descs (map_index m k)) + L"
      by blast
    from l have sm: "length (drop (L + 5) data) < length data" by simp
    from st [of m] obtain v where 1: "services_loop m data = services_loop (map_store k v m) (drop (L + 5) data)"
      by blast
    from st [of "[]"] obtain v0 where 2: "services_loop [] data = services_loop (map_store k v0 []) (drop (L + 5) data)"
      by blast
    from less [OF sm, of "map_store k v m"] 1
    have a: "(map_find sid (services_loop m data) \<noteq> None) =
        (sid = k \<or> map_find sid m \<noteq> None \<or> has_entry sid (drop (L + 5) data))"
      by (auto simp: map_find_store)
    from less [OF sm, of "map_store k v0 []"] 2
    have b: "has_entry sid data = (sid = k \<or> has_entry sid (drop (L + 5) data))"
      by (auto simp: has_entry_def)
    from a b show ?thesis by blast
  qed
qed

lemma size_of_services_loop:
  "size_of sid (services_loop m data)
     \<le> size_of sid m + (if has_entry sid data then length data - 5 else 0)"
proof (induction "length data" arbitrary: m data rule: less_induct)
  case less
  show ?case
  proof (cases "length data < 5")
    case True
    then show ?thesis by (simp add: services_loop_short)
  next
    case False
    then have "5 \<le> length data" by simp
    from services_loop_long [OF this] obtain k L where l: "L + 5 \<le> length data"
      and st: "\<And>m. \<exists>v. services_loop m data = services_loop (map_store k v m) (drop (L + 5) data) \<and>
            binarySize (descs v) \<le> binarySize (descs (map_index m k)) + L"
      by blast
    let ?x = "drop (L + 5) data"
    from l have sm: "length ?x < length data" by simp
    from st [of m] obtain v where 1: "services_loop m data = services_loop (map_store k v m) ?x"
      and v: "binarySize (descs v) \<le> size_of k m + L"
      by (auto simp: size_of_index)
    from st [of "[]"] obtain v0 where 2: "services_loop [] data = services_loop (map_store k v0 []) ?x"
      by blast
    from has_entry_iff [of sid "map_store k v0 []" ?x] 2
    have h: "has_entry sid data = (sid = k \<or> has_entry sid ?x)"
      by (auto simp: has_entry_def)
    from less [OF sm, of "map_store k v m"] 1
    have ih: "size_of sid (services_loop m data)
        \<le> size_of sid (map_store k v m) + (if has_entry sid ?x then length ?x - 5 else 0)"
      by simp
    show ?thesis
    proof (cases "sid = k")
      case True
      then have "size_of sid (map_store k v m) = binarySize (descs v)"
        by (simp add: size_of_def map_find_store)
      with v True have "size_of sid (map_store k v m) \<le> size_of sid m + L" by simp
      moreover from l have "L + (length ?x - 5) \<le> length data - 5" by simp
      moreover from l have "L \<le> length data - 5" by simp
      ultimately show ?thesis using ih h True by (simp split: if_splits)
    next
      case False
      then have "size_of sid (map_store k v m) = size_of sid m"
        by (simp add: size_of_def map_find_store)
      moreover have "length ?x - 5 \<le> length data - 5" by simp
      ultimately show ?thesis using ih h False by (simp split: if_splits)
    qed
  qed
qed

lemma size_of_dec_sections:
  "size_of sid (dec_sections m sects)
     \<le> size_of sid m +
        sum_list (map (\<lambda>s. if carries sid s then length (sect_payload s) - 8 else 0) sects)"
proof (induction sects arbitrary: m)
  case Nil
  then show ?case by (simp add: dec_sections_def)
next
  case (Cons s sects)
  have "dec_sections m (s # sects) =
      dec_sections (services_loop m (drop 3 (sect_payload s))) sects"
    by (simp add: dec_sections_def)
  with Cons [of "services_loop m (drop 3 (sect_payload s))"]
    size_of_services_loop [of sid m "drop 3 (sect_payload s)"]
  show ?case by (simp add: carries_def split: if_splits)
qed

lemma sum_filter_bound:
  "\<forall>x \<in> set xs. f x \<le> (B::nat) \<Longrightarrow>
     sum_list (map (\<lambda>x. if P x then f x else 0) xs) \<le> B * length (filter P xs)"
  by (induction xs) auto

lemma two_carriers:
  assumes "\<forall>s \<in> set sects. length (sect_payload s) \<le> mp"
    and "mp - 8 < size_of sid (dec_sections [] sects)"
  shows "2 \<le> length (filter (carries sid) sects)"
proof -
  from assms(1) have "\<forall>s \<in> set sects. length (sect_payload s) - 8 \<le> mp - 8" by auto
  note b = sum_filter_bound [OF this, of "carries sid"]
  have z: "size_of sid [] = 0" by (simp add: size_of_def)
  from size_of_dec_sections [of sid "[]" sects] z
  have "size_of sid (dec_sections [] sects)
      \<le> sum_list (map (\<lambda>s. if carries sid s then length (sect_payload s) - 8 else 0) sects)"
    by simp
  with b assms(2)
  have "mp - 8 < (mp - 8) * length (filter (carries sid) sects)"
    by linarith
  then show ?thesis by (cases "length (filter (carries sid) sects)") auto
qed

section \<open>Well-formed tables\<close>

lemma desc_size_le_binarySize: "d \<in> set ds \<Longrightarrow> desc_size d \<le> binarySize ds"
  by (induction ds) (auto simp: binarySize_def)

lemma wf_service_fits:
  assumes "wf_service serv" "265 \<le> mp"
  shows "fits mp serv"
  using assms by (auto simp: wf_service_def fits_def list_all_iff desc_size_def)

lemma wf_table_find:
  assumes "wf_table t" "(sid, serv) \<in> set (services t)"
  shows "map_find sid (services t) = Some serv"
proof -
  have "sorted_wrt (<) (map fst m) \<Longrightarrow> (sid, serv) \<in> set m \<Longrightarrow> map_find sid m = Some serv"
    for m :: ServiceMap
    by (induction m) (auto simp: rev_image_eqI)
  with assms show ?thesis by (simp add: wf_table_def)
qed

lemma wf_sample_two: "wf_table sample_two"
  by (simp add: wf_table_def sample_two_def wf_service_def sample_service_a_def
      sample_service_b_def)

lemma wf_sample_large: "wf_table sample_large"
  by (simp add: wf_table_def sample_large_def wf_service_def sample_service_a_def
      sample_service_large_def list_all_iff)

lemma wf_sample_mid: "wf_table sample_mid"
  by (simp add: wf_table_def sample_mid_def wf_service_def sample_service_c_def
      sample_service_d_def list_all_iff)


lemma serialize_returns_wf:
  assumes "265 \<le> max_payload" "wf_table t"
  shows "\<exists>out. serialize max_payload t table = Some out"
proof -
  from assms have "list_all (\<lambda>e. fits max_payload (snd e)) (services t)"
    by (auto simp: wf_table_def list_all_iff intro: wf_service_fits)
  moreover from assms(1) have "3 \<le> max_payload" "services t = [] \<or> 8 \<le> max_payload" by simp_all
  ultimately show ?thesis by (intro serialize_returns_fits)
qed


section \<open>The loop over a payload in memory\<close>

lemma drop5:
  assumes "data + 5 \<le> length p"
  shows "drop data p = p ! data # p ! (data + 1) # p ! (data + 2) # p ! (data + 3) #
           p ! (data + 4) # drop (data + 5) p"
proof -
  have s: "\<And>i. i < length p \<Longrightarrow> drop i p = p ! i # drop (Suc i) p"
    by (simp add: Cons_nth_drop_Suc)
  from assms have "data < length p" "Suc data < length p" "Suc (Suc data) < length p"
    "Suc (Suc (Suc data)) < length p" "Suc (Suc (Suc (Suc data))) < length p"
    by simp_all
  then have "drop data p = p ! data # p ! Suc data # p ! Suc (Suc data) #
      p ! Suc (Suc (Suc data)) # p ! Suc (Suc (Suc (Suc data))) #
      drop (Suc (Suc (Suc (Suc (Suc data))))) p"
    by (simp add: s)
  then show ?thesis by (simp add: eval_nat_numeral)
qed

lemma services_at_eq:
  "data + remain = length pbytes \<Longrightarrow>
     services_at pbytes data remain m = Some (services_loop m (drop data pbytes))"
proof (induction remain arbitrary: data m rule: less_induct)
  case (less remain)
  show ?case
  proof (cases "5 \<le> remain")
    case False
    with less.prems have "length (drop data pbytes) < 5" by simp
    from services_loop_short [OF this] False show ?thesis
      by (subst services_at.simps) simp
  next
    case True
    with less.prems have l: "data + 5 \<le> length pbytes" by simp
    define L where
      "L = min (unat (GetUInt16 (pbytes ! (data + 3)) (pbytes ! (data + 4)) AND 0x0FFF))
             (remain - 5)"
    define M where
      "M = map_store (GetUInt16 (pbytes ! data) (pbytes ! (data + 1)))
             ((map_index m (GetUInt16 (pbytes ! data) (pbytes ! (data + 1))))
                \<lparr>EITs_present := (pbytes ! (data + 2) AND 0x02) \<noteq> 0,
                 EITpf_present := (pbytes ! (data + 2) AND 0x01) \<noteq> 0,
                 running_status := drop_bit 5 (pbytes ! (data + 3)),
                 CA_controlled := (pbytes ! (data + 3) AND 0x10) \<noteq> 0,
                 descs := descs_add
                   (descs (map_index m (GetUInt16 (pbytes ! data) (pbytes ! (data + 1)))))
                   (take L (drop (data + 5) pbytes))\<rparr>) m"
    have lr: "length (drop (data + 5) pbytes) = remain - 5" using less.prems by simp
    have b: "\<not> length pbytes < data + 5 + L" using less.prems True by (simp add: L_def)
    have sm: "remain - 5 - L < remain" using True by simp
    have eq: "data + 5 + L + (remain - 5 - L) = length pbytes"
      using less.prems True by (simp add: L_def)
    have A: "services_at pbytes data remain m =
        services_at pbytes (data + 5 + L) (remain - 5 - L) M"
      using True l b
      by (subst services_at.simps) (simp add: Let_def L_def [symmetric] M_def)
    have B: "services_loop m (drop data pbytes) = services_loop M (drop (data + 5 + L) pbytes)"
    proof -
      have "drop L (drop (data + 5) pbytes) = drop (data + 5 + L) pbytes"
        by (simp add: add.commute)
      moreover have "L = min (unat (GetUInt16 (pbytes ! (data + 3)) (pbytes ! (data + 4))
          AND 0x0FFF)) (length pbytes - (data + 5))"
        using less.prems by (simp add: L_def)
      ultimately show ?thesis
        by (subst drop5 [OF l]) (simp add: Let_def M_def add.commute)
    qed
    from less.IH [OF sm eq, of M] A B show ?thesis by simp
  qed
qed

text \<open>
  The bound on the reads is not idle. Entered with a counter that overstates what is left
  of the payload, the loop clamps the declared length of ten bytes to the counter only, and
  the read of the descriptor bytes leaves the payload.
\<close>

lemma services_at_fault:
  "services_at [0x00, 0x01, 0xFC, 0x80, 0x0A, 0x48, 0x07, 0x01] 0 20 [] = None"
  by (subst services_at.simps) (simp add: GetUInt16_def Let_def)


section \<open>Decoding that stops at a section\<close>

lemma sections_loop_fail:
  "list_all (section_ok (table_id u)) pre \<Longrightarrow> \<not> section_ok (table_id u) bad \<Longrightarrow>
     sections_loop u (pre @ bad # post) =
       (if sect_tableId bad \<noteq> table_id u then foldl section_step u pre
        else (foldl section_step u pre)
               \<lparr>version := sect_version bad, is_current := sect_isCurrent bad,
                ts_id := sect_tableIdExtension bad\<rparr>)"
proof (induction pre arbitrary: u)
  case Nil
  then show ?case by (auto simp: section_ok_def Let_def split: list.splits)
next
  case (Cons s pre)
  then have ok: "section_ok (table_id u) s" by simp
  from Cons.prems have "list_all (section_ok (table_id (section_step u s))) pre"
    "\<not> section_ok (table_id (section_step u s)) bad"
    by simp_all
  from Cons.IH [OF this] ok show ?case
    by (simp add: sections_loop_ok del: sections_loop.simps)
qed

lemma sections_loop_pass:
  "list_all (section_ok (table_id u)) pre \<Longrightarrow>
     sections_loop u pre = (foldl section_step u pre)\<lparr>is_valid := True\<rparr>"
proof (induction pre arbitrary: u)
  case Nil
  then show ?case by simp
next
  case (Cons s pre)
  then have ok: "section_ok (table_id u) s" by simp
  from Cons.prems have "list_all (section_ok (table_id (section_step u s))) pre" by simp
  from Cons.IH [OF this] ok show ?case
    by (simp add: sections_loop_ok del: sections_loop.simps)
qed

lemma foldl_section_step_fields:
  "table_id (foldl section_step u pre) = table_id u"
  "is_valid (foldl section_step u pre) = is_valid u"
  "services (foldl section_step u pre) = dec_sections (services u) pre"
  by (induction pre arbitrary: u) (simp_all add: dec_sections_def section_step_def)

lemma foldl_section_step_last:
  "pre \<noteq> [] \<Longrightarrow>
     version (foldl section_step u pre) = sect_version (last pre) \<and>
     is_current (foldl section_step u pre) = sect_isCurrent (last pre) \<and>
     ts_id (foldl section_step u pre) = sect_tableIdExtension (last pre)"
  by (induction pre arbitrary: u rule: rev_induct) simp_all

lemma not_decodable_cases:
  assumes "\<not> decodable table"
  shows "\<not> bt_isValid table \<or>
       (bt_tableId table \<noteq> TID_SDT_ACT \<and> bt_tableId table \<noteq> TID_SDT_OTH) \<or>
       (\<exists>p b q. bt_sections table = p @ b # q \<and>
          list_all (section_ok (bt_tableId table)) p \<and> \<not> section_ok (bt_tableId table) b)"
proof (cases "list_all (section_ok (bt_tableId table)) (bt_sections table)")
  case True
  with assms show ?thesis by (auto simp: decodable_def)
next
  case False
  then have "\<exists>x \<in> set (bt_sections table). \<not> section_ok (bt_tableId table) x"
    by (simp add: list_all_iff)
  from split_list_first_prop [OF this] obtain p b q where
    "bt_sections table = p @ b # q" "\<not> section_ok (bt_tableId table) b"
    "\<forall>y \<in> set p. \<not> \<not> section_ok (bt_tableId table) y"
    by blast
  then have "bt_sections table = p @ b # q \<and>
      list_all (section_ok (bt_tableId table)) p \<and> \<not> section_ok (bt_tableId table) b"
    by (simp add: list_all_iff)
  then show ?thesis by blast
qed


section \<open>Services that fit a fresh section\<close>

lemma serialize_fit_all:
  "binarySize ds \<le> budget \<Longrightarrow>
     serialize_fit ds budget = (concat (map desc_content ds), length ds)"
  by (induction ds arbitrary: budget) (auto simp: binarySize_def)

lemma has_entry_Nil: "\<not> has_entry x []"
  by (simp add: has_entry_def)

lemma has_entry_entry:
  assumes "running_status serv < 8" "length bs < 4096"
  shows "has_entry x (entry_bytes sid serv bs) = (x = sid)"
  by (simp add: has_entry_def services_loop_entry_end [OF assms] map_find_store)

lemma has_entry_append:
  assumes "whole_entries xs"
  shows "has_entry x (xs @ ys) = (has_entry x xs \<or> has_entry x ys)"
proof -
  from assms have "services_loop [] (xs @ ys) = services_loop (services_loop [] xs) ys"
    by (simp add: whole_entries_def)
  with has_entry_iff [of x "services_loop [] xs" ys] show ?thesis
    by (simp add: has_entry_def)
qed

lemma put_service_has_entry:
  assumes inv: "enc_inv mp t st" and mp: "mp \<le> 4103" and r: "5 \<le> st_remain st"
    and wf: "wf_service serv" and w: "whole_entries (drop 3 (st_buf st))"
  shows "whole_entries (drop 3 (st_buf (fst (put_service sid serv k st))))"
    and "has_entry x (drop 3 (st_buf (fst (put_service sid serv k st)))) =
           (has_entry x (drop 3 (st_buf st)) \<or> x = sid)"
proof -
  obtain bs n where f: "serialize_fit (drop k (descs serv)) (st_remain st - 5) = (bs, n)"
    by (cases "serialize_fit (drop k (descs serv)) (st_remain st - 5)")
  note pf = put_service_fields [OF f]
  from serialize_fit_props [OF f] have len: "length bs \<le> st_remain st - 5" by blast
  from inv have l3: "3 \<le> length (st_buf st)" by (rule enc_inv_length)
  from inv have "length (st_buf st) + st_remain st = mp" by (simp add: enc_inv_def)
  with l3 len mp r have l4: "length bs < 4096" by simp
  from wf have rs: "running_status serv < 8" by (simp add: wf_service_def)
  from l3 have d3: "drop 3 (st_buf (fst (put_service sid serv k st))) =
      drop 3 (st_buf st) @ entry_bytes sid serv bs"
    by (simp add: pf)
  show "whole_entries (drop 3 (st_buf (fst (put_service sid serv k st))))"
    unfolding d3 by (intro whole_entries_append w whole_entries_entry rs l4)
  show "has_entry x (drop 3 (st_buf (fst (put_service sid serv k st)))) =
           (has_entry x (drop 3 (st_buf st)) \<or> x = sid)"
    unfolding d3 by (simp add: has_entry_append [OF w] has_entry_entry [OF rs l4])
qed

lemma carriers_addSection: "carriers sid (addSection t st) = carriers sid st"
  by (simp add: carriers_def addSection_fields carries_def emitted_fields has_entry_Nil)

lemma carriers_open_section: "carriers sid (open_section t serv b st) = carriers sid st"
  by (simp add: open_section_def carriers_addSection)

lemma put_service_table:
  "st_table (fst (put_service sid serv k st)) = st_table st"
proof -
  obtain bs n where f: "serialize_fit (drop k (descs serv)) (st_remain st - 5) = (bs, n)"
    by (cases "serialize_fit (drop k (descs serv)) (st_remain st - 5)")
  show ?thesis by (simp add: put_service_fields [OF f])
qed

lemma carriers_put_service:
  assumes inv: "enc_inv mp t st" and mp: "mp \<le> 4103" and r: "5 \<le> st_remain st"
    and wf: "wf_service serv" and w: "whole_entries (drop 3 (st_buf st))"
  shows "x \<noteq> sid \<Longrightarrow> carriers x (fst (put_service sid serv k st)) = carriers x st"
    and "carriers sid (fst (put_service sid serv k st)) =
           length (filter (carries sid) (bt_sections (st_table st))) + 1"
  by (simp_all add: carriers_def put_service_table
      put_service_has_entry(2) [OF inv mp r wf w])

lemma other_inv_addSection: "other_inv mp t x c s \<Longrightarrow> other_inv mp t x c (addSection t s)"
  by (simp add: other_inv_def enc_inv_addSection whole_entries_addSection carriers_addSection)

lemma other_inv_step:
  assumes mp: "mp \<le> 4103" and wf: "wf_service serv" and ne: "x \<noteq> sid"
    and i: "other_inv mp t x c s" and r: "5 \<le> st_remain (open_section t serv b s)"
  shows "other_inv mp t x c (fst (loop_pass t sid serv b k s))"
proof -
  let ?s1 = "open_section t serv b s"
  from i have i1: "other_inv mp t x c ?s1"
    by (simp add: open_section_def other_inv_addSection)
  then have inv1: "enc_inv mp t ?s1" and w1: "whole_entries (drop 3 (st_buf ?s1))"
    and c1: "carriers x ?s1 = c"
    by (simp_all add: other_inv_def)
  have "other_inv mp t x c (fst (put_service sid serv k ?s1))"
    unfolding other_inv_def
    using enc_inv_put_service [OF inv1 r] put_service_has_entry(1) [OF inv1 mp r wf w1]
      carriers_put_service(1) [OF inv1 mp r wf w1 ne] c1
    by simp
  then show ?thesis by (simp add: loop_pass_fields other_inv_addSection)
qed

lemma service_loop_other:
  assumes mp: "mp \<le> 4103" and wf: "wf_service serv" and ne: "x \<noteq> sid"
    and run: "service_loop t sid serv True 0 st = Some st'"
    and i: "other_inv mp t x c st"
  shows "other_inv mp t x c st'"
  using service_loop_partial [where I = "\<lambda>b k s. other_inv mp t x c s", OF run i]
    other_inv_step [OF mp wf ne]
  by blast

lemma services_for_other:
  assumes mp: "mp \<le> 4103"
  shows "services_for t m st = Some st' \<Longrightarrow> list_all (\<lambda>e. wf_service (snd e)) m \<Longrightarrow>
           x \<notin> fst ` set m \<Longrightarrow> other_inv mp t x c st \<Longrightarrow> other_inv mp t x c st'"
proof (induction m arbitrary: st)
  case Nil
  then show ?case by simp
next
  case (Cons e m)
  obtain sid serv where e: "e = (sid, serv)" by (cases e)
  let ?s = "if st_remain st < 5 then addSection t st else st"
  from Cons.prems(4) have i: "other_inv mp t x c ?s" by (simp add: other_inv_addSection)
  from Cons.prems(1) e obtain s1 where
    l: "service_loop t sid serv True 0 ?s = Some s1" and r: "services_for t m s1 = Some st'"
    by (auto simp: Let_def split: option.splits)
  from Cons.prems(2,3) e have wf: "wf_service serv" and ne: "x \<noteq> sid"
    and wm: "list_all (\<lambda>e. wf_service (snd e)) m" and nm: "x \<notin> fst ` set m"
    by auto
  from service_loop_other [OF mp wf ne l i] have "other_inv mp t x c s1" .
  from Cons.IH [OF r wm nm this] show ?case .
qed

lemma service_loop_once:
  assumes inv: "enc_inv mp t st" and r: "5 \<le> st_remain st"
    and f: "5 + binarySize (descs serv) \<le> mp - 3"
  shows "service_loop t sid serv True 0 st =
           Some (fst (put_service sid serv 0 (open_section t serv True st)))"
    and "5 \<le> st_remain (open_section t serv True st)"
proof -
  let ?s1 = "open_section t serv True st"
  have r1: "5 + binarySize (descs serv) \<le> st_remain ?s1"
    using f inv by (auto simp: open_section_def enc_inv_addSection)
  then show r5: "5 \<le> st_remain ?s1" by simp
  from r1 have "binarySize (drop 0 (descs serv)) \<le> st_remain ?s1 - 5" by simp
  from serialize_fit_all [OF this]
  have sf: "serialize_fit (drop 0 (descs serv)) (st_remain ?s1 - 5) =
      (concat (map desc_content (descs serv)), length (descs serv))"
    by simp
  note pf = put_service_fields [OF sf, of sid]
  have p: "loop_pass t sid serv True 0 st =
      (fst (put_service sid serv 0 ?s1), length (descs serv))"
    using pf(5) by (simp add: loop_pass_def split_beta Let_def)
  show "service_loop t sid serv True 0 st = Some (fst (put_service sid serv 0 ?s1))"
    using r5
    by (subst service_loop_unfold, simp add: p, subst service_loop_unfold, simp)
qed

lemma services_for_append:
  "services_for t (xs @ ys) st =
     (case services_for t xs st of None \<Rightarrow> None | Some s \<Rightarrow> services_for t ys s)"
proof (induction xs arbitrary: st)
  case Nil
  then show ?case by simp
next
  case (Cons e xs)
  obtain a b where e: "e = (a, b)" by (cases e)
  show ?case
    using Cons.IH
    by (cases "service_loop t a b True 0 (if st_remain st < 5 then addSection t st else st)")
       (simp_all add: e Let_def)
qed

lemma sorted_keys_split:
  assumes "sorted_wrt (<) (map fst (pre @ (sid :: u16, serv) # post))"
  shows "sid \<notin> fst ` set pre \<and> sid \<notin> fst ` set post"
proof -
  from assms have a: "\<forall>x \<in> set pre. fst x < sid" and b: "\<forall>x \<in> set post. sid < fst x"
    by (auto simp: sorted_wrt_append)
  have "sid \<notin> fst ` set pre"
  proof
    assume "sid \<in> fst ` set pre"
    then obtain x where x: "x \<in> set pre" "fst x = sid" by auto
    with a have "fst x < sid" by blast
    with x show False by simp
  qed
  moreover have "sid \<notin> fst ` set post"
  proof
    assume "sid \<in> fst ` set post"
    then obtain x where x: "x \<in> set post" "fst x = sid" by auto
    with b have "sid < fst x" by blast
    with x show False by simp
  qed
  ultimately show ?thesis by simp
qed

lemma single_carrier:
  assumes mp: "mp \<le> 4103" and wf: "wf_table t" and m: "(sid, serv) \<in> set (services t)"
    and f: "5 + binarySize (descs serv) \<le> mp - 3"
    and s: "serialize mp t table = Some out"
  shows "length (filter (carries sid) (bt_sections out)) = 1"
proof -
  from f have mp8: "8 \<le> mp" and mp3: "3 \<le> mp" by simp_all
  from wf have v: "is_valid t" and srt: "sorted_wrt (<) (map fst (services t))"
    and wfs: "list_all (\<lambda>e. wf_service (snd e)) (services t)"
    by (simp_all add: wf_table_def)
  from m obtain pre post where sp: "services t = pre @ (sid, serv) # post"
    by (auto dest: split_list)
  from srt sp have np: "sid \<notin> fst ` set pre" and nq: "sid \<notin> fst ` set post"
    using sorted_keys_split [of pre sid serv post] by simp_all
  from wfs sp have wp: "list_all (\<lambda>e. wf_service (snd e)) pre" and ws: "wf_service serv"
    and wq: "list_all (\<lambda>e. wf_service (snd e)) post"
    by simp_all
  let ?st0 = "\<lparr>st_table = bt_clear table, st_section_number = 0,
        st_buf = PutUInt16 (onetw_id t) @ [0xFF], st_remain = mp - 3\<rparr>"
  from v s obtain st where
    run: "services_for t (services t) ?st0 = Some st"
    and o: "out = st_table (if length (st_buf st) > 3 \<or> bt_sectionCount (st_table st) = 0
                     then addSection t st else st)"
    by (rule serialize_Some)
  have i0: "other_inv mp t sid 0 ?st0"
    using enc_inv_init [OF mp3, of t table]
    by (simp add: other_inv_def carriers_def bt_clear_eq PutUInt16_def whole_entries_Nil
        has_entry_Nil)
  from run sp obtain s1 where r1: "services_for t pre ?st0 = Some s1"
    and r2: "services_for t ((sid, serv) # post) s1 = Some st"
    by (auto simp: services_for_append split: option.splits)
  from services_for_other [OF mp r1 wp np i0] have i1: "other_inv mp t sid 0 s1" .
  let ?s = "if st_remain s1 < 5 then addSection t s1 else s1"
  from i1 have i1': "other_inv mp t sid 0 ?s" by (simp add: other_inv_addSection)
  then have inv: "enc_inv mp t ?s" and w: "whole_entries (drop 3 (st_buf ?s))"
    and c: "carriers sid ?s = 0"
    by (simp_all add: other_inv_def)
  from i1 mp8 have r5: "5 \<le> st_remain ?s"
    by (auto simp: other_inv_def enc_inv_addSection)
  let ?o = "open_section t serv True ?s"
  let ?s2 = "fst (put_service sid serv 0 ?o)"
  note once1 = service_loop_once(1) [OF inv r5 f, of sid]
  note once2 = service_loop_once(2) [OF inv r5 f]
  from r2 once1 have r3: "services_for t post ?s2 = Some st" by (simp add: Let_def)
  have io: "other_inv mp t sid 0 ?o"
    using i1' by (simp add: open_section_def other_inv_addSection)
  then have invo: "enc_inv mp t ?o" and wo: "whole_entries (drop 3 (st_buf ?o))"
    and co: "carriers sid ?o = 0"
    by (simp_all add: other_inv_def)
  from co have "length (filter (carries sid) (bt_sections (st_table ?o))) = 0"
    by (simp add: carriers_def)
  with carriers_put_service(2) [OF invo mp once2 ws wo, where sid = sid and k = 0]
  have c2: "carriers sid ?s2 = 1" by simp
  have i2: "other_inv mp t sid 1 ?s2"
    unfolding other_inv_def
    using enc_inv_put_service [OF invo once2] put_service_has_entry(1) [OF invo mp once2 ws wo]
      c2
    by simp
  from services_for_other [OF mp r3 wq nq i2] have i3: "other_inv mp t sid 1 st" .
  then have "enc_inv mp t st" by (simp add: other_inv_def)
  then have l3: "3 \<le> length (st_buf st)" by (rule enc_inv_length)
  show ?thesis
  proof (cases "length (st_buf st) > 3 \<or> bt_sectionCount (st_table st) = 0")
    case True
    with o have "out = st_table (addSection t st)" by simp
    moreover from i3 have "carriers sid (addSection t st) = 1"
      by (simp add: other_inv_def carriers_addSection)
    ultimately show ?thesis
      by (simp add: carriers_def addSection_fields has_entry_Nil)
  next
    case False
    with l3 have "drop 3 (st_buf st) = []" by simp
    with i3 have "length (filter (carries sid) (bt_sections (st_table st))) = 1"
      by (simp add: other_inv_def carriers_def has_entry_Nil)
    with False o show ?thesis by simp
  qed
qed


section \<open>The claims\<close>

text \<open>
  Claim C1, as amended. When a validation rule fails, \<^verbatim>\<open>deserialize\<close> marks the table
  invalid, and what the other fields hold depends on where the rule failed; every failure
  is of one of these two kinds.

  \<^item> The failure is found before the first section is looked at (the section sequence is
    empty or ill-formed, or its table id is not one of the two SDT ids): the entry map is
    empty, extension and scope identifier are zero, and version and current flag are those
    the object had before the call.

  \<^item> The failure is found at a section \<open>bad\<close>, the sections \<open>pre\<close> before it having
    passed: the entry map and the scope identifier are those that decoding \<open>pre\<close> alone
    gives (a successful decode), and they are empty and zero when \<open>bad\<close> is the first
    section; version, current flag and extension identifier are those of \<open>bad\<close> when it
    has the table id of the table (its payload is then shorter than three bytes), and those
    of the last section of \<open>pre\<close> when it has another table id.
\<close>

theorem deserialize_failure:
  "(\<not> decodable table \<longrightarrow>
      \<not> is_valid (deserialize t table) \<and>
      (\<not> bt_isValid table \<or>
       (bt_tableId table \<noteq> TID_SDT_ACT \<and> bt_tableId table \<noteq> TID_SDT_OTH) \<or>
       (\<exists>p b q. bt_sections table = p @ b # q \<and>
          list_all (section_ok (bt_tableId table)) p \<and> \<not> section_ok (bt_tableId table) b))) \<and>
   (\<not> bt_isValid table \<or> (bt_tableId table \<noteq> TID_SDT_ACT \<and> bt_tableId table \<noteq> TID_SDT_OTH) \<longrightarrow>
      services (deserialize t table) = [] \<and> ts_id (deserialize t table) = 0 \<and>
      onetw_id (deserialize t table) = 0 \<and> version (deserialize t table) = version t \<and>
      is_current (deserialize t table) = is_current t) \<and>
   (bt_isValid table \<and> (bt_tableId table = TID_SDT_ACT \<or> bt_tableId table = TID_SDT_OTH) \<and>
    bt_sections table = pre @ bad # post \<and>
    list_all (section_ok (bt_tableId table)) pre \<and> \<not> section_ok (bt_tableId table) bad \<longrightarrow>
      (if pre = []
       then services (deserialize t table) = [] \<and> onetw_id (deserialize t table) = 0
       else is_valid (deserialize t \<lparr>bt_sections = pre\<rparr>) \<and>
            services (deserialize t table) = services (deserialize t \<lparr>bt_sections = pre\<rparr>) \<and>
            onetw_id (deserialize t table) = onetw_id (deserialize t \<lparr>bt_sections = pre\<rparr>)) \<and>
      (if sect_tableId bad = bt_tableId table
       then version (deserialize t table) = sect_version bad \<and>
            is_current (deserialize t table) = sect_isCurrent bad \<and>
            ts_id (deserialize t table) = sect_tableIdExtension bad
       else pre \<noteq> [] \<and>
            version (deserialize t table) = sect_version (last pre) \<and>
            is_current (deserialize t table) = sect_isCurrent (last pre) \<and>
            ts_id (deserialize t table) = sect_tableIdExtension (last pre)))"
proof (intro conjI impI)
  assume "\<not> decodable table"
  then show "\<not> is_valid (deserialize t table)" by (simp add: deserialize_valid_iff)
next
  assume "\<not> decodable table"
  then show "\<not> bt_isValid table \<or>
       (bt_tableId table \<noteq> TID_SDT_ACT \<and> bt_tableId table \<noteq> TID_SDT_OTH) \<or>
       (\<exists>p b q. bt_sections table = p @ b # q \<and>
          list_all (section_ok (bt_tableId table)) p \<and> \<not> section_ok (bt_tableId table) b)"
    by (rule not_decodable_cases)
next
  assume "\<not> bt_isValid table \<or> (bt_tableId table \<noteq> TID_SDT_ACT \<and> bt_tableId table \<noteq> TID_SDT_OTH)"
  then have "deserialize t table = t\<lparr>is_valid := False, ts_id := 0, onetw_id := 0, services := []\<rparr>
     \<or> deserialize t table = t\<lparr>is_valid := False, ts_id := 0, onetw_id := 0, services := [], table_id := bt_tableId table\<rparr>"
    by (auto simp: deserialize_def Let_def)
  then show "services (deserialize t table) = []" "ts_id (deserialize t table) = 0"
      "onetw_id (deserialize t table) = 0" "version (deserialize t table) = version t"
      "is_current (deserialize t table) = is_current t"
    by auto
next
  assume a: "bt_isValid table \<and> (bt_tableId table = TID_SDT_ACT \<or> bt_tableId table = TID_SDT_OTH) \<and>
    bt_sections table = pre @ bad # post \<and>
    list_all (section_ok (bt_tableId table)) pre \<and> \<not> section_ok (bt_tableId table) bad"
  let ?tid = "bt_tableId table"
  let ?u = "t\<lparr>is_valid := False, ts_id := 0, onetw_id := 0, services := [], table_id := ?tid\<rparr>"
  let ?U = "foldl section_step ?u pre"
  from a have v: "bt_isValid table" and tid: "?tid = TID_SDT_ACT \<or> ?tid = TID_SDT_OTH"
    and sp: "bt_sections table = pre @ bad # post"
    and ok: "list_all (section_ok (table_id ?u)) pre" and nok: "\<not> section_ok (table_id ?u) bad"
    by simp_all
  from v tid have "deserialize t table = sections_loop ?u (bt_sections table)"
    by (auto simp: deserialize_def Let_def)
  with sp sections_loop_fail [OF ok nok, of post]
  have R: "deserialize t table =
       (if sect_tableId bad \<noteq> ?tid then ?U
        else ?U\<lparr>version := sect_version bad, is_current := sect_isCurrent bad,
                ts_id := sect_tableIdExtension bad\<rparr>)"
    by simp
  have first: "sect_tableId bad = ?tid" if "pre = []"
    using that sp by (simp add: bt_tableId_def)
  have P: "deserialize t \<lparr>bt_sections = pre\<rparr> = ?U\<lparr>is_valid := True\<rparr>" if ne: "pre \<noteq> []"
  proof -
    from ne sp have t': "bt_tableId \<lparr>bt_sections = pre\<rparr> = ?tid"
      by (cases pre) (simp_all add: bt_tableId_def)
    from v sp ne have "bt_isValid \<lparr>bt_sections = pre\<rparr>" by (simp add: bt_isValid_def)
    with tid t' have "deserialize t \<lparr>bt_sections = pre\<rparr> = sections_loop ?u pre"
      by (auto simp: deserialize_def Let_def)
    with sections_loop_pass [OF ok] show ?thesis by simp
  qed
  show "if pre = []
       then services (deserialize t table) = [] \<and> onetw_id (deserialize t table) = 0
       else is_valid (deserialize t \<lparr>bt_sections = pre\<rparr>) \<and>
            services (deserialize t table) = services (deserialize t \<lparr>bt_sections = pre\<rparr>) \<and>
            onetw_id (deserialize t table) = onetw_id (deserialize t \<lparr>bt_sections = pre\<rparr>)"
  proof (cases "pre = []")
    case True
    with R first show ?thesis by simp
  next
    case False
    with R P [OF False] show ?thesis by (simp split: if_splits)
  qed
  show "if sect_tableId bad = ?tid
       then version (deserialize t table) = sect_version bad \<and>
            is_current (deserialize t table) = sect_isCurrent bad \<and>
            ts_id (deserialize t table) = sect_tableIdExtension bad
       else pre \<noteq> [] \<and>
            version (deserialize t table) = sect_version (last pre) \<and>
            is_current (deserialize t table) = sect_isCurrent (last pre) \<and>
            ts_id (deserialize t table) = sect_tableIdExtension (last pre)"
  proof (cases "sect_tableId bad = ?tid")
    case True
    with R show ?thesis by simp
  next
    case False
    with first have ne: "pre \<noteq> []" by blast
    from foldl_section_step_last [OF ne, of ?u] R False ne show ?thesis by simp
  qed
qed

text \<open>
  The theorem at an empty section sequence, decoded into an object that held a table
  before, and at a sequence whose second section has a payload of two bytes.
\<close>

theorem deserialize_failure_witness:
  "\<not> decodable \<lparr>bt_sections = []\<rparr> \<and> \<not> bt_isValid \<lparr>bt_sections = []\<rparr> \<and>
   \<not> is_valid (deserialize sample_used \<lparr>bt_sections = []\<rparr>) \<and>
   services (deserialize sample_used \<lparr>bt_sections = []\<rparr>) = [] \<and>
   ts_id (deserialize sample_used \<lparr>bt_sections = []\<rparr>) = 0 \<and>
   onetw_id (deserialize sample_used \<lparr>bt_sections = []\<rparr>) = 0 \<and>
   version (deserialize sample_used \<lparr>bt_sections = []\<rparr>) = 5 \<and>
   is_current (deserialize sample_used \<lparr>bt_sections = []\<rparr>) \<and>
   bt_isValid \<lparr>bt_sections = [sample_section_a, sample_section_short]\<rparr> \<and>
   bt_tableId \<lparr>bt_sections = [sample_section_a, sample_section_short]\<rparr> = TID_SDT_ACT \<and>
   list_all (section_ok TID_SDT_ACT) [sample_section_a] \<and>
   \<not> section_ok TID_SDT_ACT sample_section_short \<and>
   sect_tableId sample_section_short = TID_SDT_ACT \<and>
   \<not> decodable \<lparr>bt_sections = [sample_section_a, sample_section_short]\<rparr> \<and>
   \<not> is_valid (deserialize sample_blank \<lparr>bt_sections = [sample_section_a, sample_section_short]\<rparr>) \<and>
   is_valid (deserialize sample_blank \<lparr>bt_sections = [sample_section_a]\<rparr>) \<and>
   services (deserialize sample_blank \<lparr>bt_sections = [sample_section_a, sample_section_short]\<rparr>) =
     services (deserialize sample_blank \<lparr>bt_sections = [sample_section_a]\<rparr>) \<and>
   onetw_id (deserialize sample_blank \<lparr>bt_sections = [sample_section_a, sample_section_short]\<rparr>) =
     onetw_id (deserialize sample_blank \<lparr>bt_sections = [sample_section_a]\<rparr>) \<and>
   version (deserialize sample_blank \<lparr>bt_sections = [sample_section_a, sample_section_short]\<rparr>) = 9 \<and>
   \<not> is_current (deserialize sample_blank \<lparr>bt_sections = [sample_section_a, sample_section_short]\<rparr>) \<and>
   ts_id (deserialize sample_blank \<lparr>bt_sections = [sample_section_a, sample_section_short]\<rparr>) = 0x9999"
proof -
  have a: "bt_isValid \<lparr>bt_sections = [sample_section_a, sample_section_short]\<rparr>"
    "bt_tableId \<lparr>bt_sections = [sample_section_a, sample_section_short]\<rparr> = TID_SDT_ACT"
    "list_all (section_ok TID_SDT_ACT) [sample_section_a]"
    "\<not> section_ok TID_SDT_ACT sample_section_short"
    "sect_tableId sample_section_short = TID_SDT_ACT"
    "sect_version sample_section_short = 9" "\<not> sect_isCurrent sample_section_short"
    "sect_tableIdExtension sample_section_short = 0x9999"
    by (simp_all add: bt_isValid_def bt_tableId_def section_ok_def sample_section_a_def
        sample_section_short_def new_Section_def TID_SDT_ACT_def)
  then have d: "\<not> decodable \<lparr>bt_sections = [sample_section_a, sample_section_short]\<rparr>"
    by (simp add: decodable_def)
  have e: "\<not> decodable \<lparr>bt_sections = []\<rparr>" "\<not> bt_isValid \<lparr>bt_sections = []\<rparr>"
    "version sample_used = 5" "is_current sample_used"
    by (simp_all add: decodable_def bt_isValid_def sample_used_def)
  from deserialize_failure [of "\<lparr>bt_sections = []\<rparr>" sample_used] e
    deserialize_failure [where table = "\<lparr>bt_sections = [sample_section_a, sample_section_short]\<rparr>"
      and t = sample_blank and pre = "[sample_section_a]" and bad = sample_section_short
      and post = "[]"] a d
  show ?thesis by simp
qed

text \<open>
  Claim C1 as stated fails. A first section with one service is followed by a section whose
  payload has two bytes: decoding stops there with the table marked invalid, the service and
  the scope identifier of the first section are still in the table, and version, current
  flag and extension identifier are those of the second section. When the first section is
  followed by a section with the other table id, the service, scope identifier, version,
  current flag and extension identifier of the first section are still in the table. A
  single section with a payload of two bytes leaves its version and extension identifier in
  the table. And an empty section sequence decoded into an object that held a table leaves
  the version 5 and the current flag of that table in place.
\<close>

theorem deserialize_failure_keeps_state:
  "\<not> is_valid (deserialize sample_blank \<lparr>bt_sections = [sample_section_a, sample_section_short]\<rparr>) \<and>
   services (deserialize sample_blank \<lparr>bt_sections = [sample_section_a, sample_section_short]\<rparr>) \<noteq> [] \<and>
   version (deserialize sample_blank \<lparr>bt_sections = [sample_section_a, sample_section_short]\<rparr>) = 9 \<and>
   ts_id (deserialize sample_blank \<lparr>bt_sections = [sample_section_a, sample_section_short]\<rparr>) = 0x9999 \<and>
   onetw_id (deserialize sample_blank \<lparr>bt_sections = [sample_section_a, sample_section_short]\<rparr>) = 0xABCD \<and>
   \<not> is_valid (deserialize sample_blank \<lparr>bt_sections = [sample_section_a, sample_section_b]\<rparr>) \<and>
   services (deserialize sample_blank \<lparr>bt_sections = [sample_section_a, sample_section_b]\<rparr>) \<noteq> [] \<and>
   version (deserialize sample_blank \<lparr>bt_sections = [sample_section_a, sample_section_b]\<rparr>) = 3 \<and>
   is_current (deserialize sample_blank \<lparr>bt_sections = [sample_section_a, sample_section_b]\<rparr>) \<and>
   ts_id (deserialize sample_blank \<lparr>bt_sections = [sample_section_a, sample_section_b]\<rparr>) = 0x1234 \<and>
   onetw_id (deserialize sample_blank \<lparr>bt_sections = [sample_section_a, sample_section_b]\<rparr>) = 0xABCD \<and>
   \<not> is_valid (deserialize sample_blank \<lparr>bt_sections = [sample_section_short]\<rparr>) \<and>
   version (deserialize sample_blank \<lparr>bt_sections = [sample_section_short]\<rparr>) = 9 \<and>
   ts_id (deserialize sample_blank \<lparr>bt_sections = [sample_section_short]\<rparr>) = 0x9999 \<and>
   \<not> is_valid (deserialize sample_used \<lparr>bt_sections = []\<rparr>) \<and>
   version (deserialize sample_used \<lparr>bt_sections = []\<rparr>) = 5 \<and>
   is_current (deserialize sample_used \<lparr>bt_sections = []\<rparr>)"
  by (simp add: deserialize_def bt_isValid_def bt_tableId_def sample_blank_def sample_used_def
      sample_section_a_def sample_section_b_def sample_section_short_def new_Section_def
      TID_SDT_ACT_def TID_SDT_OTH_def GetUInt16_def Let_def)

text \<open>
  Claim C9. Whether a section sequence decodes successfully does not depend on the version,
  current flag or extension identifier of its sections (\<open>decodable\<close> does not mention
  them); and after a successful decode the version, current flag and extension identifier of
  the table are those of the last section.
\<close>

theorem deserialize_last_section_wins:
  "is_valid (deserialize t table) = decodable table \<and>
   (is_valid (deserialize t table) \<longrightarrow>
     version (deserialize t table) = sect_version (last (bt_sections table)) \<and>
     is_current (deserialize t table) = sect_isCurrent (last (bt_sections table)) \<and>
     ts_id (deserialize t table) = sect_tableIdExtension (last (bt_sections table)))"
proof (intro conjI impI)
  show "is_valid (deserialize t table) = decodable table" by (rule deserialize_valid_iff)
next
  assume v: "is_valid (deserialize t table)"
  let ?t0 = "t\<lparr>is_valid := False, ts_id := 0, onetw_id := 0, services := [], table_id := bt_tableId table\<rparr>"
  from v have d: "decodable table" by (simp add: deserialize_valid_iff)
  then have eq: "deserialize t table = sections_loop ?t0 (bt_sections table)"
    by (auto simp: deserialize_def decodable_def Let_def)
  from d have ne: "bt_sections table \<noteq> []" by (simp add: decodable_def bt_isValid_def)
  from d have "list_all (section_ok (table_id ?t0)) (bt_sections table)"
    by (simp add: decodable_def)
  from sections_loop_last [OF this ne] eq
  show "version (deserialize t table) = sect_version (last (bt_sections table))"
    "is_current (deserialize t table) = sect_isCurrent (last (bt_sections table))"
    "ts_id (deserialize t table) = sect_tableIdExtension (last (bt_sections table))"
    by simp_all
qed

text \<open>
  The theorem at two sections that disagree on version (3 and 7), current flag and
  extension identifier.
\<close>

theorem deserialize_last_section_wins_witness:
  "is_valid (deserialize sample_blank \<lparr>bt_sections = [sample_section_a, sample_section_c]\<rparr>) \<and>
   sect_version sample_section_a = 3 \<and>
   version (deserialize sample_blank \<lparr>bt_sections = [sample_section_a, sample_section_c]\<rparr>) = 7 \<and>
   \<not> is_current (deserialize sample_blank \<lparr>bt_sections = [sample_section_a, sample_section_c]\<rparr>) \<and>
   ts_id (deserialize sample_blank \<lparr>bt_sections = [sample_section_a, sample_section_c]\<rparr>) = 0x5678"
  using deserialize_last_section_wins
    [of sample_blank "\<lparr>bt_sections = [sample_section_a, sample_section_c]\<rparr>"]
  by (simp add: decodable_def bt_isValid_def bt_tableId_def section_ok_def
      sample_section_a_def sample_section_c_def new_Section_def TID_SDT_ACT_def)

text \<open>
  Claim C10. For a table whose validity flag is false, \<^verbatim>\<open>serialize\<close> returns the
  cleared output, which has no section. The output never depends on what the binary table
  held before the call. For a valid table, an encode that returns has produced at least one
  section.
\<close>

theorem serialize_invalid_table:
  "(\<not> is_valid t \<longrightarrow>
      serialize max_payload t table = Some (bt_clear table) \<and>
      bt_sectionCount (bt_clear table) = 0) \<and>
   serialize max_payload t table = serialize max_payload t table' \<and>
   (is_valid t \<longrightarrow>
      (\<forall>out. serialize max_payload t table = Some out \<longrightarrow> 1 \<le> bt_sectionCount out))"
proof (intro conjI impI allI)
  show "serialize max_payload t table = serialize max_payload t table'"
    by (simp add: serialize_def bt_clear_eq)
next
  assume "\<not> is_valid t"
  then show "serialize max_payload t table = Some (bt_clear table)"
    by (simp add: serialize_def)
next
  show "bt_sectionCount (bt_clear table) = 0"
    by (simp add: bt_clear_eq bt_sectionCount_def)
next
  fix out
  assume "is_valid t" and "serialize max_payload t table = Some out"
  then show "1 \<le> bt_sectionCount out"
    by (auto simp: serialize_def bt_sectionCount_def Let_def addSection_def bt_addSection_def
        Suc_le_eq split: option.splits if_splits)
qed

text \<open>
  The theorem at an invalid table and an output that held a section, and at a valid table
  with one service.
\<close>

theorem serialize_invalid_table_witness:
  "\<not> is_valid sample_blank \<and>
   serialize 1012 sample_blank \<lparr>bt_sections = [sample_section_a]\<rparr> = Some \<lparr>bt_sections = []\<rparr> \<and>
   is_valid sample_used \<and>
   (\<exists>out. serialize 1012 sample_used \<lparr>bt_sections = [sample_section_a]\<rparr> = Some out \<and>
      1 \<le> bt_sectionCount out)"
proof -
  have s: "serialize 1012 sample_used \<lparr>bt_sections = [sample_section_a]\<rparr> =
      Some \<lparr>bt_sections = [new_Section 0x42 True 1 5 True 0 0 [0, 2, 0xFF, 0, 1, 0xFC, 0, 0]]\<rparr>"
    by code_simp
  from serialize_invalid_table
    [of sample_blank 1012 "\<lparr>bt_sections = [sample_section_a]\<rparr>" "\<lparr>bt_sections = []\<rparr>"]
    serialize_invalid_table
    [of sample_used 1012 "\<lparr>bt_sections = [sample_section_a]\<rparr>" "\<lparr>bt_sections = []\<rparr>"]
    s
  show ?thesis
    by (simp add: sample_blank_def sample_used_def bt_clear_def)
qed

text \<open>
  Claim C4, as amended. For a valid table of \<open>N\<close> services without descriptors,
  \<^verbatim>\<open>serialize\<close> returns, with at least one section and exactly
  \<open>max 1 (ceil (N / floor ((max_payload - 3) / 5)))\<close> sections: every section repeats the
  three constant bytes and holds whole five-byte entries only.
\<close>

theorem section_count_no_descs:
  assumes "8 \<le> max_payload" "is_valid t" "no_descs (services t)"
  shows "\<exists>out. serialize max_payload t table = Some out \<and> 1 \<le> bt_sectionCount out \<and>
           bt_sectionCount out =
             max 1 ((length (services t) + (max_payload - 3) div 5 - 1) div ((max_payload - 3) div 5))"
proof -
  define k where "k = (max_payload - 3) div 5"
  define n where "n = length (services t)"
  from assms(1) have k: "1 \<le> k" by (simp add: k_def)
  from serialize_no_descs [OF assms, of table] obtain out where
    s: "serialize max_payload t table = Some out"
    and c: "bt_sectionCount out = (if services t = [] then 1 else (n - 1) div k + 1)"
    unfolding k_def n_def by blast
  have m: "bt_sectionCount out = max 1 ((n + k - 1) div k)"
  proof (cases "services t = []")
    case True
    then have "n = 0" by (simp add: n_def)
    moreover from k have "(k - 1) div k = 0" by simp
    ultimately show ?thesis using c True by simp
  next
    case False
    then have n: "1 \<le> n" unfolding n_def by (cases "services t") simp_all
    from ceil_div_eq [OF k n] c False have "bt_sectionCount out = (n + k - 1) div k" by simp
    moreover from ceil_div_eq [OF k n] have "1 \<le> (n + k - 1) div k" by linarith
    ultimately show ?thesis by simp
  qed
  then have "1 \<le> bt_sectionCount out" by simp
  with s m show ?thesis unfolding k_def n_def by blast
qed

text \<open>The theorem at 403 services and the maximum payload size 1012.\<close>

theorem section_count_no_descs_witness:
  "(8::nat) \<le> 1012 \<and> is_valid (sample_plain 403) \<and> no_descs (services (sample_plain 403)) \<and>
   (\<exists>out. serialize 1012 (sample_plain 403) \<lparr>bt_sections = []\<rparr> = Some out \<and>
      bt_sectionCount out = 3)"
  using section_count_no_descs [of 1012 "sample_plain 403" "\<lparr>bt_sections = []\<rparr>"]
  by (auto simp: no_descs_sample_plain length_sample_plain is_valid_sample_plain)


text \<open>
  Claim C4 as stated fails: 403 services without descriptors are encoded into three sections
  of at most 1012 bytes, and \<open>ceil ((403 * 5 + 3) / 1012)\<close> is 2.
\<close>

theorem section_count_exceeds_bound:
  "is_valid (sample_plain 403) \<and> length (services (sample_plain 403)) = 403 \<and>
   no_descs (services (sample_plain 403)) \<and>
   bt_sectionCount (the (serialize 1012 (sample_plain 403) \<lparr>bt_sections = []\<rparr>)) = 3 \<and>
   (403 * 5 + 3 + 1012 - 1) div 1012 = (2::nat)"
proof -
  from serialize_sample_plain [of 1012 403 "\<lparr>bt_sections = []\<rparr>"]
  have "bt_sectionCount (the (serialize 1012 (sample_plain 403) \<lparr>bt_sections = []\<rparr>)) = 3"
    by auto
  then show ?thesis
    by (simp add: no_descs_sample_plain length_sample_plain is_valid_sample_plain)
qed


text \<open>
  Claim C8, as amended. Every section that \<^verbatim>\<open>serialize\<close> emits for a valid table has a
  payload no longer than the maximum payload size and a last section number equal to its own
  section number. The section emitted as number \<open>i\<close> (counting from 0) carries the section
  number \<open>i\<close> cut to eight bits, so the section numbers increase strictly from 0 as long as
  the sections have indices below 256.
\<close>

theorem serialize_sections:
  assumes "3 \<le> max_payload" "is_valid t" "serialize max_payload t table = Some out"
  shows "(\<forall>i < bt_sectionCount out.
            length (sect_payload (bt_sections out ! i)) \<le> max_payload \<and>
            sect_sectionNumber (bt_sections out ! i) = word_of_nat i \<and>
            sect_lastSectionNumber (bt_sections out ! i) = sect_sectionNumber (bt_sections out ! i)) \<and>
         (\<forall>i j. i < j \<and> j < bt_sectionCount out \<and> j < 256 \<longrightarrow>
            sect_sectionNumber (bt_sections out ! i) < sect_sectionNumber (bt_sections out ! j))"
proof -
  from serialize_sections_inv [OF assms]
  have inv: "\<And>i. i < length (bt_sections out) \<Longrightarrow>
      \<exists>p. bt_sections out ! i = emitted t i p \<and> length p \<le> max_payload"
    by (auto simp: sections_inv_def)
  have a: "length (sect_payload (bt_sections out ! i)) \<le> max_payload \<and>
            sect_sectionNumber (bt_sections out ! i) = word_of_nat i \<and>
            sect_lastSectionNumber (bt_sections out ! i) = sect_sectionNumber (bt_sections out ! i)"
    if "i < bt_sectionCount out" for i
    using inv [of i] that by (auto simp: bt_sectionCount_def emitted_fields)
  have b: "sect_sectionNumber (bt_sections out ! i) < sect_sectionNumber (bt_sections out ! j)"
    if "i < j" "j < bt_sectionCount out" "j < 256" for i j
  proof -
    from that have "i < bt_sectionCount out" by simp
    from a [OF this] a [OF that(2)] that show ?thesis by (simp add: byte_of_nat_less)
  qed
  from a b show ?thesis by blast
qed

text \<open>The theorem at a table with one service and a maximum payload size of 20.\<close>

theorem serialize_sections_witness:
  "(3::nat) \<le> 20 \<and> is_valid sample_used \<and>
   serialize 20 sample_used \<lparr>bt_sections = []\<rparr> =
     Some \<lparr>bt_sections = [new_Section 0x42 True 1 5 True 0 0 [0, 2, 0xFF, 0, 1, 0xFC, 0, 0]]\<rparr> \<and>
   length [0, 2, 0xFF, 0, 1, 0xFC, 0, 0 :: u8] \<le> 20"
proof -
  have s: "serialize 20 sample_used \<lparr>bt_sections = []\<rparr> =
     Some \<lparr>bt_sections = [new_Section 0x42 True 1 5 True 0 0 [0, 2, 0xFF, 0, 1, 0xFC, 0, 0]]\<rparr>"
    by code_simp
  have v: "is_valid sample_used" by (simp add: sample_used_def)
  from serialize_sections [OF _ v s] s v show ?thesis by simp
qed


text \<open>
  Claim C8 as stated fails: a valid table of 51457 services without descriptors is encoded,
  with the maximum payload size 1012, into 257 sections; the section emitted after the one
  numbered 255 is numbered 0.
\<close>

theorem section_numbers_wrap:
  "is_valid (sample_plain 51457) \<and>
   serialize 1012 (sample_plain 51457) \<lparr>bt_sections = []\<rparr> \<noteq> None \<and>
   bt_sectionCount (the (serialize 1012 (sample_plain 51457) \<lparr>bt_sections = []\<rparr>)) = 257 \<and>
   sect_sectionNumber
     (bt_sections (the (serialize 1012 (sample_plain 51457) \<lparr>bt_sections = []\<rparr>)) ! 255) = 255 \<and>
   sect_sectionNumber
     (bt_sections (the (serialize 1012 (sample_plain 51457) \<lparr>bt_sections = []\<rparr>)) ! 256) = 0"
proof -
  let ?t = "sample_plain 51457"
  from serialize_sample_plain [of 1012 51457 "\<lparr>bt_sections = []\<rparr>"]
  obtain out where s: "serialize 1012 ?t \<lparr>bt_sections = []\<rparr> = Some out"
    and c: "bt_sectionCount out = 257"
    by auto
  from serialize_sections_inv [OF _ is_valid_sample_plain s]
  have inv: "\<And>i. i < length (bt_sections out) \<Longrightarrow> \<exists>p. bt_sections out ! i = emitted ?t i p"
    by (auto simp: sections_inv_def)
  from c inv [of 255] have "sect_sectionNumber (bt_sections out ! 255) = 255"
    by (auto simp: bt_sectionCount_def emitted_fields)
  moreover from c inv [of 256] have "sect_sectionNumber (bt_sections out ! 256) = 0"
    by (auto simp: bt_sectionCount_def emitted_fields)
  ultimately show ?thesis using s c by (simp add: is_valid_sample_plain)
qed



text \<open>
  Claim C5. Let one pass of \<^verbatim>\<open>serialize\<close> write a service with a running status
  between 0 and 7 into a buffer with at least 5 and at most 4100 bytes left. The bytes
  written are a five-byte header followed by the descriptors serialized in this pass; the
  low 12 bits of the length field are the number of these descriptor bytes, whatever the
  running status and the CA bit; and the loop of \<^verbatim>\<open>deserialize\<close> reads back from these
  bytes the service id and the same four flag values.
\<close>

theorem put_service_header:
  assumes "running_status serv < 8" "5 \<le> st_remain st" "st_remain st \<le> 4100"
    and "put_service service_id serv start_index st = (st', next_index)"
  shows "take (length (st_buf st)) (st_buf st') = st_buf st \<and>
         5 \<le> length (drop (length (st_buf st)) (st_buf st')) \<and>
         drop 5 (drop (length (st_buf st)) (st_buf st')) =
           concat (map desc_content
             (take (next_index - start_index) (drop start_index (descs serv)))) \<and>
         unat (GetUInt16 (drop (length (st_buf st)) (st_buf st') ! 3)
                         (drop (length (st_buf st)) (st_buf st') ! 4) AND 0x0FFF) =
           length (drop 5 (drop (length (st_buf st)) (st_buf st'))) \<and>
         services_loop [] (drop (length (st_buf st)) (st_buf st')) =
           [(service_id,
             serv\<lparr>descs := parse_descs (drop 5 (drop (length (st_buf st)) (st_buf st')))\<rparr>)]"
proof -
  obtain bs n where f: "serialize_fit (drop start_index (descs serv)) (st_remain st - 5) = (bs, n)"
    by (cases "serialize_fit (drop start_index (descs serv)) (st_remain st - 5)")
  from serialize_fit_props [OF f]
  have bs: "bs = concat (map desc_content (take n (drop start_index (descs serv))))"
    and len: "length bs \<le> st_remain st - 5"
    by blast+
  from len assms(3) have l4: "length bs < 4096" by simp
  from put_service_eq [OF f, of service_id] assms(4)
  have b: "st_buf st' = st_buf st @ entry_bytes service_id serv bs"
    and n: "next_index = start_index + n"
    by auto
  let ?seg = "drop (length (st_buf st)) (st_buf st')"
  from b have seg: "?seg = entry_bytes service_id serv bs" by simp
  have d5: "drop 5 (entry_bytes service_id serv bs) = bs"
    by (simp add: entry_bytes_def PutUInt16_def)
  have i3: "entry_bytes service_id serv bs ! 3 =
      patch (ucast (drop_bit 8 (length_field (length bs)))) (running_status serv) (CA_controlled serv)"
    and i4: "entry_bytes service_id serv bs ! 4 = ucast (length_field (length bs))"
    by (simp_all add: entry_bytes_def PutUInt16_def)
  from services_loop_entry [OF assms(1) l4, of "[]" service_id "[]"]
  have dec: "services_loop [] (entry_bytes service_id serv bs) =
      [(service_id, serv\<lparr>descs := parse_descs bs\<rparr>)]"
    by (simp add: map_index_def Service_default_def)
  show ?thesis
    unfolding seg d5 i3 i4
    using b bs n dec l4 by (simp add: length_entry_bytes patch_len)
qed

text \<open>
  The theorem at a service with two descriptors of which one fits into the 11 bytes left.
\<close>

theorem put_service_header_witness:
  "running_status
     \<lparr>EITs_present = True, EITpf_present = False, running_status = 4, CA_controlled = True,
      descs = [Descriptor 0x48 [1, 2, 3], Descriptor 0x50 []]\<rparr> < 8 \<and>
   put_service 7
     \<lparr>EITs_present = True, EITpf_present = False, running_status = 4, CA_controlled = True,
      descs = [Descriptor 0x48 [1, 2, 3], Descriptor 0x50 []]\<rparr> 0
     \<lparr>st_table = \<lparr>bt_sections = []\<rparr>, st_section_number = 0,
      st_buf = [0xAB, 0xCD, 0xFF], st_remain = 11\<rparr> =
     (\<lparr>st_table = \<lparr>bt_sections = []\<rparr>, st_section_number = 0,
       st_buf = [0xAB, 0xCD, 0xFF, 0, 7, 0xFE, 0x90, 5, 0x48, 3, 1, 2, 3],
       st_remain = 1\<rparr>, 1) \<and>
   services_loop [] [0, 7, 0xFE, 0x90, 5, 0x48, 3, 1, 2, 3] =
     [(7, \<lparr>EITs_present = True, EITpf_present = False, running_status = 4,
           CA_controlled = True, descs = [Descriptor 0x48 [1, 2, 3]]\<rparr>)]"
proof -
  let ?serv = "\<lparr>EITs_present = True, EITpf_present = False, running_status = 4,
      CA_controlled = True, descs = [Descriptor 0x48 [1, 2, 3], Descriptor 0x50 []]\<rparr>"
  let ?st = "\<lparr>st_table = \<lparr>bt_sections = []\<rparr>, st_section_number = 0,
      st_buf = [0xAB, 0xCD, 0xFF], st_remain = 11\<rparr>"
  have p: "put_service 7 ?serv 0 ?st =
     (\<lparr>st_table = \<lparr>bt_sections = []\<rparr>, st_section_number = 0,
       st_buf = [0xAB, 0xCD, 0xFF, 0, 7, 0xFE, 0x90, 5, 0x48, 3, 1, 2, 3],
       st_remain = 1\<rparr>, 1)"
    by code_simp
  have d: "services_loop [] [0, 7, 0xFE, 0x90, 5, 0x48, 3, 1, 2, 3] =
     [(7, \<lparr>EITs_present = True, EITpf_present = False, running_status = 4,
           CA_controlled = True, descs = [Descriptor 0x48 [1, 2, 3]]\<rparr>)]"
    by code_simp
  have r: "running_status ?serv < 8" by simp
  have h2: "5 \<le> st_remain ?st" and h3: "st_remain ?st \<le> 4100" by simp_all
  from put_service_header [OF r h2 h3 p] p r d show ?thesis
    by blast
qed


text \<open>
  Claim C6. The loop of \<^verbatim>\<open>deserialize\<close> over a payload in memory, entered with the
  pointer and the counter in step with the payload size, reads no byte outside the payload
  and ends: it returns the map that the loop over the list of the bytes computes. When a
  service header declares a descriptor loop length (the low 12 bits of its last two bytes)
  greater than the number of bytes that follow the header, the bytes handed to the
  descriptor list of that service are exactly those that follow the header, up to the end
  of the payload, and the loop ends there for this section.
\<close>

theorem services_at_clamps:
  assumes "data + remain = length pbytes"
  shows "services_at pbytes data remain m = Some (services_loop m (drop data pbytes)) \<and>
         (5 \<le> remain \<and>
          remain - 5 < unat (GetUInt16 (pbytes ! (data + 3)) (pbytes ! (data + 4)) AND 0x0FFF) \<longrightarrow>
            services_at pbytes data remain m =
              Some (map_store (GetUInt16 (pbytes ! data) (pbytes ! (data + 1)))
                ((map_index m (GetUInt16 (pbytes ! data) (pbytes ! (data + 1))))
                   \<lparr>EITs_present := (pbytes ! (data + 2) AND 0x02) \<noteq> 0,
                    EITpf_present := (pbytes ! (data + 2) AND 0x01) \<noteq> 0,
                    running_status := drop_bit 5 (pbytes ! (data + 3)),
                    CA_controlled := (pbytes ! (data + 3) AND 0x10) \<noteq> 0,
                    descs := descs_add
                      (descs (map_index m (GetUInt16 (pbytes ! data) (pbytes ! (data + 1)))))
                      (drop (data + 5) pbytes)\<rparr>) m))"
proof (intro conjI impI)
  from assms
  show "services_at pbytes data remain m = Some (services_loop m (drop data pbytes))"
    by (rule services_at_eq)
next
  assume a: "5 \<le> remain \<and>
    remain - 5 < unat (GetUInt16 (pbytes ! (data + 3)) (pbytes ! (data + 4)) AND 0x0FFF)"
  then have mn: "min (unat (GetUInt16 (pbytes ! (data + 3)) (pbytes ! (data + 4)) AND 0x0FFF))
      (remain - 5) = remain - 5"
    by simp
  from a assms have l: "\<not> length pbytes < data + 5" "\<not> length pbytes < data + 5 + (remain - 5)"
    by simp_all
  from assms have tk: "take (remain - 5) (drop (data + 5) pbytes) = drop (data + 5) pbytes"
    by simp
  have e: "services_at pbytes d 0 M = Some M" for d M
    by (subst services_at.simps) simp
  from a l show "services_at pbytes data remain m =
      Some (map_store (GetUInt16 (pbytes ! data) (pbytes ! (data + 1)))
        ((map_index m (GetUInt16 (pbytes ! data) (pbytes ! (data + 1))))
           \<lparr>EITs_present := (pbytes ! (data + 2) AND 0x02) \<noteq> 0,
            EITpf_present := (pbytes ! (data + 2) AND 0x01) \<noteq> 0,
            running_status := drop_bit 5 (pbytes ! (data + 3)),
            CA_controlled := (pbytes ! (data + 3) AND 0x10) \<noteq> 0,
            descs := descs_add
              (descs (map_index m (GetUInt16 (pbytes ! data) (pbytes ! (data + 1)))))
              (drop (data + 5) pbytes)\<rparr>) m)"
    by (subst services_at.simps) (simp add: Let_def mn tk e)
qed

text \<open>
  The theorem at a payload of eleven bytes, entered at offset 3 with 8 bytes left, whose
  header declares ten descriptor bytes where three follow: these three bytes go to the
  descriptor list, where the one descriptor, declared with seven payload bytes, is kept
  with the single byte available.
\<close>

theorem services_at_clamps_witness:
  "(3::nat) + 8 = length [0xAB, 0xCD, 0xFF, 0x00, 0x01, 0xFC, 0x80, 0x0A, 0x48, 0x07, 0x01 :: u8] \<and>
   (5::nat) \<le> 8 \<and> (8::nat) - 5 < unat (GetUInt16 0x80 0x0A AND 0x0FFF) \<and>
   services_at [0xAB, 0xCD, 0xFF, 0x00, 0x01, 0xFC, 0x80, 0x0A, 0x48, 0x07, 0x01] 3 8 [] =
     Some [(1, \<lparr>EITs_present = False, EITpf_present = False, running_status = 4,
                 CA_controlled = False, descs = [Descriptor 0x48 [0x01]]\<rparr>)]"
proof -
  have l: "(8::nat) - 5 < unat (GetUInt16 0x80 0x0A AND 0x0FFF)"
    by (simp add: GetUInt16_def)
  from services_at_clamps [of 3 8 "[0xAB, 0xCD, 0xFF, 0x00, 0x01, 0xFC, 0x80, 0x0A, 0x48, 0x07, 0x01]" "[]"] l
  show ?thesis
    by (simp add: GetUInt16_def map_index_def Service_default_def descs_add_def)
qed


text \<open>
  Claim C2. For a table of the data model whose encoded size is within the maximum payload
  size (itself at most 4103, so that a descriptor loop length fits 12 bits),
  \<^verbatim>\<open>serialize\<close> returns and \<^verbatim>\<open>deserialize\<close> turns its output into the same table:
  table id, version, current flag, extension identifier, scope identifier and the entry map
  with its keys, flags and descriptors in order.
\<close>

theorem roundtrip_one_section:
  assumes "wf_table t" "max_payload \<le> 4103" "encoded_size t \<le> max_payload"
  shows "\<exists>out. serialize max_payload t table = Some out \<and> deserialize t0 out = t"
proof -
  from assms(3) have mp3: "3 \<le> max_payload" by (simp add: encoded_size_def)
  have e: "5 + binarySize (descs (snd e)) \<le> max_payload - 3" if "e \<in> set (services t)" for e
  proof -
    from that have "5 + binarySize (descs (snd e))
        \<le> sum_list (map (\<lambda>e. 5 + binarySize (descs (snd e))) (services t))"
      by (intro member_le_sum_list) auto
    with assms(3) show ?thesis by (simp add: encoded_size_def)
  qed
  have "services t = [] \<or> 8 \<le> max_payload"
  proof (cases "services t")
    case Nil
    then show ?thesis by simp
  next
    case (Cons x xs)
    with e [of x] show ?thesis by simp
  qed
  moreover have "list_all (\<lambda>e. fits max_payload (snd e)) (services t)"
    unfolding list_all_iff fits_def
  proof (intro ballI)
    fix x d assume "x \<in> set (services t)" "d \<in> set (descs (snd x))"
    from e [OF this(1)] desc_size_le_binarySize [OF this(2)]
    show "desc_size d \<le> max_payload - 8" by simp
  qed
  ultimately obtain out where s: "serialize max_payload t table = Some out"
    using serialize_returns_fits [OF mp3] by blast
  from deserialize_serialize [OF mp3 assms(2,1) s] s show ?thesis by blast
qed

text \<open>The theorem at the small sample table and the payload size 1012.\<close>

theorem roundtrip_one_section_witness:
  "wf_table sample_two \<and> (1012::nat) \<le> 4103 \<and> encoded_size sample_two \<le> 1012 \<and>
   (\<exists>out. serialize 1012 sample_two \<lparr>bt_sections = []\<rparr> = Some out \<and>
      deserialize sample_blank out = sample_two)"
proof -
  have e: "encoded_size sample_two \<le> 1012"
    by (simp add: encoded_size_def sample_two_def sample_service_a_def sample_service_b_def
        binarySize_def desc_size_def)
  from roundtrip_one_section [OF wf_sample_two _ e, of "\<lparr>bt_sections = []\<rparr>" sample_blank]
    wf_sample_two e
  show ?thesis by simp
qed


text \<open>
  Claim C3, as amended. For a table of the data model and a maximum payload size between 265
  and 4103, \<^verbatim>\<open>serialize\<close> returns and decoding its sections gives back the table, so that
  every service has its original descriptor list. A service whose five-byte header and
  descriptors together exceed the capacity of a fresh section (the maximum payload size less
  the three constant bytes) is carried, header included, by at least two of the sections;
  a service whose header and descriptors together fit a fresh section is carried by exactly
  one section, whatever room the section under construction has left when the service is
  reached.
\<close>

theorem roundtrip_split:
  assumes "265 \<le> max_payload" "max_payload \<le> 4103" "wf_table t"
    and "(sid, serv) \<in> set (services t)"
  shows "\<exists>out. serialize max_payload t table = Some out \<and>
           deserialize t0 out = t \<and>
           map_find sid (services (deserialize t0 out)) = Some serv \<and>
           (max_payload - 3 < 5 + binarySize (descs serv) \<longrightarrow>
              2 \<le> length (filter (carries sid) (bt_sections out))) \<and>
           (5 + binarySize (descs serv) \<le> max_payload - 3 \<longrightarrow>
              length (filter (carries sid) (bt_sections out)) = 1)"
proof -
  from assms(1) have mp3: "3 \<le> max_payload" by simp
  from serialize_returns_wf [OF assms(1,3)] obtain out where
    s: "serialize max_payload t table = Some out"
    by blast
  from deserialize_serialize [OF mp3 assms(2,3) s] have d: "deserialize t0 out = t" .
  from wf_table_find [OF assms(3,4)] have f: "map_find sid (services t) = Some serv" .
  have two: "2 \<le> length (filter (carries sid) (bt_sections out))"
    if big: "max_payload - 3 < 5 + binarySize (descs serv)"
  proof -
    from assms(3) have v: "is_valid t" by (simp add: wf_table_def)
    from serialize_decoded [OF mp3 assms(2,3) s]
    have si: "sections_inv max_payload t (bt_sections out)"
      and ds: "dec_sections [] (bt_sections out) = services t"
      by simp_all
    have le: "\<forall>s \<in> set (bt_sections out). length (sect_payload s) \<le> max_payload"
    proof
      fix x assume "x \<in> set (bt_sections out)"
      then obtain i where "i < length (bt_sections out)" "x = bt_sections out ! i"
        by (auto simp: in_set_conv_nth)
      with si show "length (sect_payload x) \<le> max_payload"
        by (auto simp: sections_inv_def emitted_fields)
    qed
    from big assms(1) have "max_payload - 8 < binarySize (descs serv)" by arith
    with f ds have "max_payload - 8 < size_of sid (dec_sections [] (bt_sections out))"
      by (simp add: size_of_def)
    from two_carriers [OF le this] show ?thesis .
  qed
  have one: "length (filter (carries sid) (bt_sections out)) = 1"
    if small: "5 + binarySize (descs serv) \<le> max_payload - 3"
    using assms(2,3,4) small s by (rule single_carrier)
  from s d f two one show ?thesis by auto
qed

text \<open>
  The theorem at the payload size 1012: at a table whose second service has five
  descriptors of 257 bytes, and at a table whose second service, of 205 bytes, is reached
  with 104 bytes left in the section under construction.
\<close>

theorem roundtrip_split_witness:
  "(265::nat) \<le> 1012 \<and> (1012::nat) \<le> 4103 \<and> wf_table sample_large \<and>
   (7, sample_service_large) \<in> set (services sample_large) \<and>
   (1012::nat) - 3 < 5 + binarySize (descs sample_service_large) \<and>
   (\<exists>out. serialize 1012 sample_large \<lparr>bt_sections = []\<rparr> = Some out \<and>
      map_find 7 (services (deserialize sample_blank out)) = Some sample_service_large \<and>
      2 \<le> length (filter (carries 7) (bt_sections out))) \<and>
   wf_table sample_mid \<and> (2, sample_service_d) \<in> set (services sample_mid) \<and>
   5 + binarySize (descs sample_service_d) \<le> (1012::nat) - 3 \<and>
   (\<exists>out. serialize 1012 sample_mid \<lparr>bt_sections = []\<rparr> = Some out \<and>
      map_find 2 (services (deserialize sample_blank out)) = Some sample_service_d \<and>
      length (filter (carries 2) (bt_sections out)) = 1)"
proof -
  have m: "(7, sample_service_large) \<in> set (services sample_large)"
    by (simp add: sample_large_def)
  have b: "(1012::nat) - 3 < 5 + binarySize (descs sample_service_large)"
    by (simp add: sample_service_large_def binarySize_def desc_size_def sum_list_replicate)
  have m': "(2, sample_service_d) \<in> set (services sample_mid)"
    by (simp add: sample_mid_def)
  have b': "5 + binarySize (descs sample_service_d) \<le> (1012::nat) - 3"
    by (simp add: sample_service_d_def binarySize_def desc_size_def)
  from roundtrip_split [OF _ _ wf_sample_large m, of 1012 "\<lparr>bt_sections = []\<rparr>" sample_blank]
    wf_sample_large m b
  have large: "\<exists>out. serialize 1012 sample_large \<lparr>bt_sections = []\<rparr> = Some out \<and>
      map_find 7 (services (deserialize sample_blank out)) = Some sample_service_large \<and>
      2 \<le> length (filter (carries 7) (bt_sections out))"
    by auto
  from roundtrip_split [OF _ _ wf_sample_mid m', of 1012 "\<lparr>bt_sections = []\<rparr>" sample_blank]
    wf_sample_mid m' b'
  have mid: "\<exists>out. serialize 1012 sample_mid \<lparr>bt_sections = []\<rparr> = Some out \<and>
      map_find 2 (services (deserialize sample_blank out)) = Some sample_service_d \<and>
      length (filter (carries 2) (bt_sections out)) = 1"
    by auto
  from wf_sample_large m b large wf_sample_mid m' b' mid show ?thesis by simp
qed


text \<open>
  Claim C3 as stated fails: when the second service of the sample table is reached, 104
  bytes are left in the current section and the service needs 205; it is not split but
  written whole into a new section, so that one section only carries it.
\<close>

theorem entry_moved_not_split:
  "wf_table sample_mid \<and> (2, sample_service_d) \<in> set (services sample_mid) \<and>
   map_option st_remain
     (services_for sample_mid [(1, sample_service_c)]
        \<lparr>st_table = \<lparr>bt_sections = []\<rparr>, st_section_number = 0,
         st_buf = PutUInt16 (onetw_id sample_mid) @ [0xFF], st_remain = 1012 - 3\<rparr>) = Some 104 \<and>
   5 + binarySize (descs sample_service_d) = 205 \<and>
   map_option bt_sectionCount (serialize 1012 sample_mid \<lparr>bt_sections = []\<rparr>) = Some 2 \<and>
   length (filter (carries 2)
     (bt_sections (the (serialize 1012 sample_mid \<lparr>bt_sections = []\<rparr>)))) = 1"
proof -
  have m: "(2, sample_service_d) \<in> set (services sample_mid)"
    by (simp add: sample_mid_def)
  have r: "map_option st_remain
     (services_for sample_mid [(1, sample_service_c)]
        \<lparr>st_table = \<lparr>bt_sections = []\<rparr>, st_section_number = 0,
         st_buf = PutUInt16 (onetw_id sample_mid) @ [0xFF], st_remain = 1012 - 3\<rparr>) = Some 104"
    by code_simp
  have z: "5 + binarySize (descs sample_service_d) = 205"
    by (simp add: sample_service_d_def binarySize_def desc_size_def)
  have c: "map_option bt_sectionCount (serialize 1012 sample_mid \<lparr>bt_sections = []\<rparr>) = Some 2"
    by code_simp
  have f: "length (filter (carries 2)
     (bt_sections (the (serialize 1012 sample_mid \<lparr>bt_sections = []\<rparr>)))) = 1"
    by code_simp
  from wf_sample_mid m r z c f show ?thesis by blast
qed

text \<open>
  Claim C7. For a table of the data model and a maximum payload size of at least 265 bytes
  (three constant bytes, a five-byte header and a descriptor of the largest size, 257),
  \<^verbatim>\<open>serialize\<close> returns: every pass of the loop over the descriptors of a service that
  starts in a fresh section writes at least one descriptor.
\<close>

theorem serialize_total:
  assumes "265 \<le> max_payload" "wf_table t"
  shows "\<exists>out. serialize max_payload t table = Some out"
  using assms by (rule serialize_returns_wf)

text \<open>The theorem at the small sample table and the payload size 1012.\<close>

theorem serialize_total_witness:
  "(265::nat) \<le> 1012 \<and> wf_table sample_two \<and>
   (\<exists>out. serialize 1012 sample_two \<lparr>bt_sections = []\<rparr> = Some out)"
  using serialize_total [of 1012 sample_two "\<lparr>bt_sections = []\<rparr>"] wf_sample_two
  by simp


end
